theory Spec2Isabelle
  imports Main "HOL-Library.Word"
begin

unbundle bit_operations_syntax

section \<open>Errors\<close>

text \<open>
  Every error return and every run-time panic of the Go source is a value. The first
  argument of \<open>DataPathError\<close> is the field \<open>Path\<close>, the second the field \<open>Part\<close>.
\<close>

datatype error =
    DataPathError string string
  | InvalidStructure string
  | NoBodyTag
  | IndexNotFound
  | RuntimePanic string

section \<open>Data context (pkg/generator/types.go)\<close>

text \<open>
  A YAML tree as Go holds it in an \<open>interface{}\<close>: a scalar, a sequence, or a
  \<open>map[string]interface{}\<close>. Only the last one passes the type assertion of \<open>Get\<close>.
\<close>

datatype val =
    Scalar string
  | Sequence "val list"
  | Mapping "string \<Rightarrow> val option"

record SimpleDataContext =
  data :: "string \<Rightarrow> val option"

text \<open>
  A Go string is a sequence of bytes, and \<open>for _, char := range path\<close> walks it rune by
  rune: each step decodes one UTF-8 sequence as \<open>utf8.DecodeRuneInString\<close> does and yields
  its code point; a byte that does not begin a well-formed sequence yields \<open>RuneError\<close>
  (U+FFFD) and a width of one byte. A rune is a natural number here, a byte the code of a
  \<open>char\<close>.
\<close>

definition RuneError :: nat where
  "RuneError = 0xFFFD"

fun DecodeRune :: "string \<Rightarrow> nat \<times> nat" where
  "DecodeRune [] = (RuneError, 0)"
| "DecodeRune (c0 # cs) =
    (let b0 = (of_char c0 :: nat) in
     if b0 < 0x80 then (b0, 1)
     else if b0 < 0xC2 \<or> 0xF4 < b0 then (RuneError, 1)
     else
       (let size = (if b0 < 0xE0 then 2 else if b0 < 0xF0 then 3 else (4 :: nat));
            lo = (if b0 = 0xE0 then 0xA0 else if b0 = 0xF0 then 0x90 else (0x80 :: nat));
            hi = (if b0 = 0xED then 0x9F else if b0 = 0xF4 then 0x8F else (0xBF :: nat))
        in if length cs + 1 < size then (RuneError, 1)
           else
             (let b1 = (of_char (cs ! 0) :: nat) in
              if b1 < lo \<or> hi < b1 then (RuneError, 1)
              else if size \<le> 2 then ((b0 mod 32) * 64 + b1 mod 64, 2)
              else
                (let b2 = (of_char (cs ! 1) :: nat) in
                 if b2 < 0x80 \<or> 0xBF < b2 then (RuneError, 1)
                 else if size \<le> 3 then ((b0 mod 16) * 4096 + (b1 mod 64) * 64 + b2 mod 64, 3)
                 else
                   (let b3 = (of_char (cs ! 2) :: nat) in
                    if b3 < 0x80 \<or> 0xBF < b3 then (RuneError, 1)
                    else ((b0 mod 8) * 262144 + (b1 mod 64) * 4096 + (b2 mod 64) * 64 + b3 mod 64,
                          4))))))"

lemma DecodeRune_size: "s \<noteq> [] \<Longrightarrow> 0 < snd (DecodeRune s)"
  by (cases s) (simp_all add: Let_def)

text \<open>The runes that a \<open>range\<close> loop over the string visits, in order.\<close>

function range_runes :: "string \<Rightarrow> nat list" where
  "range_runes s =
     (if s = [] then []
      else fst (DecodeRune s) # range_runes (drop (snd (DecodeRune s)) s))"
  by pat_completeness auto
termination
proof (relation "measure length")
  show "wf (measure length)" by simp
next
  fix s :: string
  assume "s \<noteq> []"
  then show "(drop (snd (DecodeRune s)) s, s) \<in> measure length"
    using DecodeRune_size [of s] by simp
qed

declare range_runes.simps [simp del]

text \<open>
  \<open>string(char)\<close>: the UTF-8 encoding of a rune (\<open>encoderune\<close> of the Go runtime); a
  surrogate or a value above U+10FFFF is encoded as U+FFFD.
\<close>

definition EncodeRune :: "nat \<Rightarrow> string" where
  "EncodeRune r =
     (if r \<le> 0x7F then [char_of r]
      else if r \<le> 0x7FF then [char_of (0xC0 + r div 64), char_of (0x80 + r mod 64)]
      else if 0x10FFFF < r \<or> (0xD800 \<le> r \<and> r \<le> 0xDFFF)
        then [CHR 0xEF, CHR 0xBF, CHR 0xBD]
      else if r \<le> 0xFFFF
        then [char_of (0xE0 + r div 4096), char_of (0x80 + (r div 64) mod 64),
              char_of (0x80 + r mod 64)]
      else [char_of (0xF0 + r div 262144), char_of (0x80 + (r div 4096) mod 64),
            char_of (0x80 + (r div 64) mod 64), char_of (0x80 + r mod 64)])"

text \<open>
  \<open>splitPath\<close>: the \<open>range\<close> loop over the runes of the path, with the two loop
  variables \<open>parts\<close> and \<open>current\<close>.
\<close>

fun splitPath_loop :: "nat list \<Rightarrow> string list \<Rightarrow> string \<Rightarrow> string list" where
  "splitPath_loop [] parts current = (if current \<noteq> [] then parts @ [current] else parts)"
| "splitPath_loop (char # rest) parts current =
     (if char = of_char CHR ''.''
      then (if current \<noteq> [] then splitPath_loop rest (parts @ [current]) []
            else splitPath_loop rest parts current)
      else splitPath_loop rest parts (current @ EncodeRune char))"

definition splitPath :: "string \<Rightarrow> string list" where
  "splitPath path =
     (if path = [] \<or> path = ''.'' then [] else splitPath_loop (range_runes path) [] [])"

text \<open>The loop of \<open>Get\<close> over the parts; \<open>current\<close> is the node reached so far.\<close>

fun Get_loop :: "string \<Rightarrow> string list \<Rightarrow> val \<Rightarrow> error + val" where
  "Get_loop path [] current = Inr current"
| "Get_loop path (part # parts) current =
     (if part = [] then Get_loop path parts current
      else (case current of
              Mapping currentMap \<Rightarrow>
                (case currentMap part of
                   None \<Rightarrow> Inl (DataPathError path part)
                 | Some v \<Rightarrow> Get_loop path parts v)
            | _ \<Rightarrow> Inl (DataPathError path part)))"

text \<open>
  \<open>Get\<close> has a pointer receiver; the model returns the context next to the result, so
  that what the call does to the tree is part of its value.
\<close>

definition Get :: "SimpleDataContext \<Rightarrow> string \<Rightarrow> (error + val) \<times> SimpleDataContext" where
  "Get ctx path =
     (if path = [] \<or> path = ''.'' then (Inr (Mapping (data ctx)), ctx)
      else (Get_loop path (splitPath path) (Mapping (data ctx)), ctx))"

subsection \<open>What the specification says about a lookup\<close>

text \<open>
  The pieces of a text are what stands between its separators; the segments of a dot-path
  are its non-empty pieces, the maximal runs of characters other than the dot.
\<close>

fun pieces :: "char \<Rightarrow> string \<Rightarrow> string list" where
  "pieces sep [] = [[]]"
| "pieces sep (c # cs) =
     (if c = sep then [] # pieces sep cs
      else (case pieces sep cs of f # fs \<Rightarrow> (c # f) # fs | [] \<Rightarrow> [[c]]))"

text \<open>
  A text read as Go reads a string rune by rune, and written back: every byte that is not
  part of a well-formed UTF-8 sequence has become U+FFFD (the bytes EF BF BD).
\<close>

definition rune_text :: "string \<Rightarrow> string" where
  "rune_text s = concat (map EncodeRune (range_runes s))"

text \<open>
  Well-formed UTF-8 byte sequences, as the Unicode standard tabulates them (shortest form,
  no surrogates, nothing above U+10FFFF).
\<close>

definition tail_byte :: "char \<Rightarrow> bool" where
  "tail_byte c = (0x80 \<le> (of_char c :: nat) \<and> (of_char c :: nat) \<le> 0xBF)"

definition second_byte :: "char \<Rightarrow> char \<Rightarrow> bool" where
  "second_byte c0 c1 =
     (let b0 = (of_char c0 :: nat); b1 = (of_char c1 :: nat) in
      (if b0 = 0xE0 then 0xA0 else if b0 = 0xF0 then 0x90 else 0x80) \<le> b1 \<and>
      b1 \<le> (if b0 = 0xED then 0x9F else if b0 = 0xF4 then 0x8F else 0xBF))"

fun well_formed :: "string \<Rightarrow> bool" where
  "well_formed [] = True"
| "well_formed [c0] = ((of_char c0 :: nat) < 0x80)"
| "well_formed [c0, c1] =
     (if (of_char c0 :: nat) < 0x80 then well_formed [c1]
      else 0xC2 \<le> (of_char c0 :: nat) \<and> (of_char c0 :: nat) \<le> 0xDF \<and> second_byte c0 c1)"
| "well_formed [c0, c1, c2] =
     (if (of_char c0 :: nat) < 0x80 then well_formed [c1, c2]
      else if 0xC2 \<le> (of_char c0 :: nat) \<and> (of_char c0 :: nat) \<le> 0xDF
        then second_byte c0 c1 \<and> well_formed [c2]
      else 0xE0 \<le> (of_char c0 :: nat) \<and> (of_char c0 :: nat) \<le> 0xEF \<and> second_byte c0 c1 \<and>
           tail_byte c2)"
| "well_formed (c0 # c1 # c2 # c3 # cs) =
     (if (of_char c0 :: nat) < 0x80 then well_formed (c1 # c2 # c3 # cs)
      else if 0xC2 \<le> (of_char c0 :: nat) \<and> (of_char c0 :: nat) \<le> 0xDF
        then second_byte c0 c1 \<and> well_formed (c2 # c3 # cs)
      else if 0xE0 \<le> (of_char c0 :: nat) \<and> (of_char c0 :: nat) \<le> 0xEF
        then second_byte c0 c1 \<and> tail_byte c2 \<and> well_formed (c3 # cs)
      else 0xF0 \<le> (of_char c0 :: nat) \<and> (of_char c0 :: nat) \<le> 0xF4 \<and> second_byte c0 c1 \<and>
           tail_byte c2 \<and> tail_byte c3 \<and> well_formed cs)"

definition segments :: "string \<Rightarrow> string list" where
  "segments path = filter (\<lambda>s. s \<noteq> []) (pieces CHR ''.'' path)"

text \<open>The child of a node under a key: only a mapping node has children.\<close>

fun child :: "val \<Rightarrow> string \<Rightarrow> val option" where
  "child (Mapping m) k = m k"
| "child (Scalar s) k = None"
| "child (Sequence vs) k = None"

text \<open>\<open>addressed root segs\<close>: the node reached from \<open>root\<close> along \<open>segs\<close>, if every step exists.\<close>

fun addressed :: "val \<Rightarrow> string list \<Rightarrow> val option" where
  "addressed node [] = Some node"
| "addressed node (s # ss) = (case child node s of None \<Rightarrow> None | Some v \<Rightarrow> addressed v ss)"

text \<open>The data file of the specification's scenario: namespace \<open>projects\<close> with \<open>Featured.Title = "Acme"\<close>.\<close>

definition projects_ctx :: SimpleDataContext where
  "projects_ctx = \<lparr>data = [''projects'' \<mapsto> Mapping [''Featured'' \<mapsto> Mapping [''Title'' \<mapsto> Scalar ''Acme'']]]\<rparr>"


text \<open>
  A tree whose key under \<open>projects\<close> is \<open>caf\<close> followed by the byte E9, the Latin-1 code
  of an accented e, which is not UTF-8.
\<close>

definition latin1_ctx :: SimpleDataContext where
  "latin1_ctx = \<lparr>data = [''projects'' \<mapsto> Mapping [''caf'' @ [CHR 0xE9] \<mapsto> Scalar ''espresso'']]\<rparr>"

section \<open>Key derivation (pkg/encrypt/encrypt.go)\<close>

type_synonym byte = "8 word"
type_synonym bytes = "byte list"

text \<open>
  \<open>crypto/hmac\<close> and \<open>crypto/sha256\<close> belong to Go's standard library. The keyed hash is a
  parameter \<open>mac key message\<close> of everything below; the hash object that \<open>hmac.New\<close>
  returns is the key with the bytes written since the last \<open>Reset\<close>.
\<close>

record hmac_state =
  hkey :: bytes
  hbuf :: bytes

definition hmac_New :: "bytes \<Rightarrow> hmac_state" where
  "hmac_New password = \<lparr>hkey = password, hbuf = []\<rparr>"

definition hmac_Write :: "hmac_state \<Rightarrow> bytes \<Rightarrow> hmac_state" where
  "hmac_Write h p = h\<lparr>hbuf := hbuf h @ p\<rparr>"

definition hmac_Reset :: "hmac_state \<Rightarrow> hmac_state" where
  "hmac_Reset h = h\<lparr>hbuf := []\<rparr>"

definition hmac_Sum :: "(bytes \<Rightarrow> bytes \<Rightarrow> bytes) \<Rightarrow> hmac_state \<Rightarrow> bytes" where
  "hmac_Sum mac h = mac (hkey h) (hbuf h)"

definition saltSize :: nat where "saltSize = 16"
definition ivSize :: nat where "ivSize = 12"
definition keySize :: int where "keySize = 32"
definition iterations :: int where "iterations = 100000"
definition sha256_Size :: int where "sha256_Size = 32"

text \<open>
  The inner loop \<open>for j := range result { result[j] ^= u[j] }\<close>; reading \<open>u[j]\<close> past
  the end of \<open>u\<close> panics.
\<close>

function xor_loop :: "bytes \<Rightarrow> bytes \<Rightarrow> nat \<Rightarrow> error + bytes" where
  "xor_loop result u j =
     (if j < length result
      then (if j < length u then xor_loop (result[j := (result ! j) XOR (u ! j)]) u (j + 1)
            else Inl (RuntimePanic ''index out of range''))
      else Inr result)"
  by pat_completeness auto
termination
  by (relation "measure (\<lambda>(result, u, j). length result - j)") auto

declare xor_loop.simps [simp del]

text \<open>
  The outer loop \<open>for i := 1; i < iter; i++\<close> of \<open>pbkdf2Block\<close>, with the hash object,
  the last block \<open>u\<close> and the accumulator \<open>result\<close> as its state.
\<close>

function pbkdf2Block_loop ::
  "(bytes \<Rightarrow> bytes \<Rightarrow> bytes) \<Rightarrow> hmac_state \<Rightarrow> bytes \<Rightarrow> bytes \<Rightarrow> int \<Rightarrow> int \<Rightarrow> error + bytes" where
  "pbkdf2Block_loop mac h u result i iter =
     (if i < iter
      then (let h1 = hmac_Write (hmac_Reset h) u;
                u1 = hmac_Sum mac h1
            in case xor_loop result u1 0 of
                 Inl e \<Rightarrow> Inl e
               | Inr result1 \<Rightarrow> pbkdf2Block_loop mac h1 u1 result1 (i + 1) iter)
      else Inr result)"
  by pat_completeness auto
termination
  by (relation "measure (\<lambda>(mac, h, u, result, i, iter). nat (iter - i))") auto

declare pbkdf2Block_loop.simps [simp del]

text \<open>\<open>byte(blockNum >> k)\<close> on a Go \<open>int\<close>: the arithmetic shift, then the low eight bits.\<close>

definition blockNum_bytes :: "int \<Rightarrow> bytes" where
  "blockNum_bytes blockNum =
     [word_of_int (drop_bit 24 blockNum), word_of_int (drop_bit 16 blockNum),
      word_of_int (drop_bit 8 blockNum), word_of_int blockNum]"

definition pbkdf2Block ::
  "(bytes \<Rightarrow> bytes \<Rightarrow> bytes) \<Rightarrow> bytes \<Rightarrow> bytes \<Rightarrow> int \<Rightarrow> int \<Rightarrow> error + bytes" where
  "pbkdf2Block mac password salt iter blockNum =
     (let h = hmac_Write (hmac_Write (hmac_New password) salt) (blockNum_bytes blockNum);
          u = hmac_Sum mac h;
          result = u
      in pbkdf2Block_loop mac h u result 1 iter)"

text \<open>
  The loop \<open>for block := 1; block <= numBlocks; block++\<close> of \<open>pbkdf2\<close>, appending to
  \<open>dk\<close>.
\<close>

function pbkdf2_loop ::
  "(bytes \<Rightarrow> bytes \<Rightarrow> bytes) \<Rightarrow> bytes \<Rightarrow> bytes \<Rightarrow> int \<Rightarrow> int \<Rightarrow> int \<Rightarrow> bytes \<Rightarrow> error + bytes" where
  "pbkdf2_loop mac password salt iter numBlocks block dk =
     (if block \<le> numBlocks
      then (case pbkdf2Block mac password salt iter block of
              Inl e \<Rightarrow> Inl e
            | Inr b \<Rightarrow> pbkdf2_loop mac password salt iter numBlocks (block + 1) (dk @ b))
      else Inr dk)"
  by pat_completeness auto
termination
  by (relation "measure (\<lambda>(mac, password, salt, iter, numBlocks, block, dk). nat (numBlocks + 1 - block))") auto

declare pbkdf2_loop.simps [simp del]

text \<open>
  Go's integer division truncates towards zero. The final \<open>dk[:keyLen]\<close> panics when
  \<open>keyLen\<close> is negative or beyond the slice; the model takes the length of \<open>dk\<close> as its
  capacity.
\<close>

definition go_div :: "int \<Rightarrow> int \<Rightarrow> int" where
  "go_div a b = (if (a < 0) = (b < 0) then \<bar>a\<bar> div \<bar>b\<bar> else - (\<bar>a\<bar> div \<bar>b\<bar>))"

definition pbkdf2 ::
  "(bytes \<Rightarrow> bytes \<Rightarrow> bytes) \<Rightarrow> bytes \<Rightarrow> bytes \<Rightarrow> int \<Rightarrow> int \<Rightarrow> error + bytes" where
  "pbkdf2 mac password salt iter keyLen =
     (let numBlocks = go_div (keyLen + sha256_Size - 1) sha256_Size
      in case pbkdf2_loop mac password salt iter numBlocks 1 [] of
           Inl e \<Rightarrow> Inl e
         | Inr dk \<Rightarrow>
             if 0 \<le> keyLen \<and> nat keyLen \<le> length dk then Inr (take (nat keyLen) dk)
             else Inl (RuntimePanic ''slice bounds out of range''))"

subsection \<open>PBKDF2 as the standard defines it\<close>

text \<open>
  The specification's words: \<open>U\<^sub>1 = PRF(password, salt || INT_32_BE(i))\<close>,
  \<open>U\<^sub>j = PRF(password, U\<^sub>j\<^sub>-\<^sub>1)\<close>, and block \<open>i\<close> is \<open>U\<^sub>1 xor ... xor U\<^sub>c\<close>.
\<close>

definition INT_32_BE :: "32 word \<Rightarrow> bytes" where
  "INT_32_BE i = [ucast (drop_bit 24 i), ucast (drop_bit 16 i), ucast (drop_bit 8 i), ucast i]"

fun std_U :: "(bytes \<Rightarrow> bytes \<Rightarrow> bytes) \<Rightarrow> bytes \<Rightarrow> bytes \<Rightarrow> 32 word \<Rightarrow> nat \<Rightarrow> bytes" where
  "std_U mac password salt i 0 = mac password (salt @ INT_32_BE i)"
| "std_U mac password salt i (Suc j) = mac password (std_U mac password salt i j)"

definition xor_bytes :: "bytes \<Rightarrow> bytes \<Rightarrow> bytes" where
  "xor_bytes a b = map2 (XOR) a b"

text \<open>\<open>std_T mac password salt c i\<close> is  \<open>U\<^sub>1 xor ... xor U\<^sub>c\<close>; \<open>std_U \<dots> j\<close> is \<open>U\<^sub>j\<^sub>+\<^sub>1\<close>.\<close>

definition std_T :: "(bytes \<Rightarrow> bytes \<Rightarrow> bytes) \<Rightarrow> bytes \<Rightarrow> bytes \<Rightarrow> nat \<Rightarrow> 32 word \<Rightarrow> bytes" where
  "std_T mac password salt c i =
     foldl xor_bytes (std_U mac password salt i 0) (map (std_U mac password salt i) [1..<c])"

text \<open>A stand-in keyed hash with 32-byte output, to run the definitions on.\<close>

definition toy_mac :: "bytes \<Rightarrow> bytes \<Rightarrow> bytes" where
  "toy_mac k m = replicate 32 (word_of_nat (length k + length m))"

section \<open>Go strings\<close>

text \<open>
  A Go string is a sequence of bytes, here a \<open>string\<close>. The functions of package
  \<open>strings\<close> that the generator calls follow, with the result \<open>-1\<close> of a failed search
  kept as Go returns it. A slice expression \<open>s[lo:hi]\<close> panics outside \<open>0 \<le> lo \<le> hi \<le> len(s)\<close>.
\<close>

fun HasPrefix :: "string \<Rightarrow> string \<Rightarrow> bool" where
  "HasPrefix s [] = True"
| "HasPrefix [] (p # ps) = False"
| "HasPrefix (c # cs) (p # ps) = (c = p \<and> HasPrefix cs ps)"

fun Index :: "string \<Rightarrow> string \<Rightarrow> int" where
  "Index [] sub = (if sub = [] then 0 else - 1)"
| "Index (c # cs) sub =
     (if HasPrefix (c # cs) sub then 0
      else (let r = Index cs sub in if r = - 1 then - 1 else r + 1))"

lemma Index_ge: "- 1 \<le> Index s sub"
  by (induction s) (auto simp: Let_def)

definition Contains :: "string \<Rightarrow> string \<Rightarrow> bool" where
  "Contains s sub = (0 \<le> Index s sub)"

definition slice_expr :: "string \<Rightarrow> int \<Rightarrow> int \<Rightarrow> error + string" where
  "slice_expr s lo hi =
     (if 0 \<le> lo \<and> lo \<le> hi \<and> hi \<le> int (length s)
      then Inr (take (nat (hi - lo)) (drop (nat lo) s))
      else Inl (RuntimePanic ''slice bounds out of range''))"

definition slice_from :: "string \<Rightarrow> int \<Rightarrow> error + string" where
  "slice_from s lo = slice_expr s lo (int (length s))"

definition slice_to :: "string \<Rightarrow> int \<Rightarrow> error + string" where
  "slice_to s hi = slice_expr s 0 hi"

text \<open>
  \<open>strings.ReplaceAll\<close>: the occurrences of \<open>old\<close> are replaced from left to right
  without overlap. For an empty \<open>old\<close> Go inserts \<open>new\<close> before every character and at
  the end.
\<close>

function ReplaceAll :: "string \<Rightarrow> string \<Rightarrow> string \<Rightarrow> string" where
  "ReplaceAll s old new =
     (if old = [] then concat (map (\<lambda>c. new @ [c]) s) @ new
      else if s = [] then []
      else if HasPrefix s old then new @ ReplaceAll (drop (length old) s) old new
      else hd s # ReplaceAll (tl s) old new)"
  by pat_completeness auto
termination
  by (relation "measure (\<lambda>(s, old, new). length s)") auto

declare ReplaceAll.simps [simp del]

text \<open>
  \<open>strings.Split\<close> with a non-empty separator (an empty one cuts after every character)
  and \<open>strings.Join\<close>.
\<close>

function Split :: "string \<Rightarrow> string \<Rightarrow> string list" where
  "Split s sep =
     (if sep = [] then map (\<lambda>c. [c]) s
      else if Index s sep = - 1 then [s]
      else take (nat (Index s sep)) s # Split (drop (nat (Index s sep) + length sep) s) sep)"
  by pat_completeness auto
termination
proof (relation "measure (\<lambda>(s, sep). length s)")
  show "wf (measure (\<lambda>(s, sep). length s))" by simp
next
  fix s sep :: string
  assume sep: "sep \<noteq> []" and found: "Index s sep \<noteq> - 1"
  have "s \<noteq> []" using sep found by (cases s) auto
  then show "((drop (nat (Index s sep) + length sep) s, sep), (s, sep)) \<in> measure (\<lambda>(s, sep). length s)"
    using sep by (cases s) auto
qed

declare Split.simps [simp del]

fun Join :: "string list \<Rightarrow> string \<Rightarrow> string" where
  "Join [] sep = []"
| "Join [x] sep = x"
| "Join (x # y # ys) sep = x @ sep @ Join (y # ys) sep"

text \<open>
  \<open>strings.TrimSpace\<close> removes the leading and the trailing white space, as Unicode
  defines it: six ASCII characters and nineteen others, the latter in their UTF-8
  encodings.
\<close>

definition wide_spaces :: "string list" where
  "wide_spaces =
     [[CHR 0xC2, CHR 0x85], [CHR 0xC2, CHR 0xA0], [CHR 0xE1, CHR 0x9A, CHR 0x80],
      [CHR 0xE2, CHR 0x80, CHR 0x80], [CHR 0xE2, CHR 0x80, CHR 0x81], [CHR 0xE2, CHR 0x80, CHR 0x82],
      [CHR 0xE2, CHR 0x80, CHR 0x83], [CHR 0xE2, CHR 0x80, CHR 0x84], [CHR 0xE2, CHR 0x80, CHR 0x85],
      [CHR 0xE2, CHR 0x80, CHR 0x86], [CHR 0xE2, CHR 0x80, CHR 0x87], [CHR 0xE2, CHR 0x80, CHR 0x88],
      [CHR 0xE2, CHR 0x80, CHR 0x89], [CHR 0xE2, CHR 0x80, CHR 0x8A], [CHR 0xE2, CHR 0x80, CHR 0xA8],
      [CHR 0xE2, CHR 0x80, CHR 0xA9], [CHR 0xE2, CHR 0x80, CHR 0xAF], [CHR 0xE2, CHR 0x81, CHR 0x9F],
      [CHR 0xE3, CHR 0x80, CHR 0x80]]"

text \<open>The white-space characters as byte strings, and the width of the one a string starts with (0 if none).\<close>

definition space_codes :: "string list" where
  "space_codes = map (\<lambda>c. [c]) [CHR 0x09, CHR 0x0A, CHR 0x0B, CHR 0x0C, CHR 0x0D, CHR 0x20] @ wide_spaces"

definition leading_space :: "string list \<Rightarrow> string \<Rightarrow> nat" where
  "leading_space codes s = (case find (HasPrefix s) codes of None \<Rightarrow> 0 | Some e \<Rightarrow> length e)"

function trim_left :: "string list \<Rightarrow> string \<Rightarrow> string" where
  "trim_left codes s =
     (if leading_space codes s = 0 \<or> s = [] then s
      else trim_left codes (drop (leading_space codes s) s))"
  by pat_completeness auto
termination
  by (relation "measure (\<lambda>(codes, s). length s)") auto

declare trim_left.simps [simp del]

text \<open>From the right, the same scan runs over the reversed bytes.\<close>

definition TrimSpace :: "string \<Rightarrow> string" where
  "TrimSpace s = rev (trim_left (map rev space_codes) (rev (trim_left space_codes s)))"

section \<open>Template composer (pkg/parser, pkg/utils/html.go)\<close>

definition NL :: string where "NL = [CHR 0x0A]"
definition TAB :: string where "TAB = [CHR 0x09]"
definition DQ :: string where "DQ = [CHR 0x22]"

subsection \<open>Body boundaries\<close>

text \<open>\<open>findTag\<close>: the loop \<open>for i := 0; i < len(html)-len(tag); i++\<close>.\<close>

function findTag_loop :: "string \<Rightarrow> string \<Rightarrow> nat \<Rightarrow> int" where
  "findTag_loop html tag i =
     (if int i < int (length html) - int (length tag)
      then (if take (length tag) (drop i html) = tag then int i
            else findTag_loop html tag (i + 1))
      else - 1)"
  by pat_completeness auto
termination
  by (relation "measure (\<lambda>(html, tag, i). length html - i)") auto

declare findTag_loop.simps [simp del]

definition findTag :: "string \<Rightarrow> string \<Rightarrow> int" where
  "findTag html tag = findTag_loop html tag 0"

text \<open>
  \<open>splitHTMLBody\<close> returns \<open>nil\<close> (here \<open>None\<close>) when a tag is not found, and else the
  three slices; a slice expression can panic.
\<close>

definition splitHTMLBody :: "string \<Rightarrow> error + string list option" where
  "splitHTMLBody html =
     (let bodyStart = findTag html ''<body>'';
          bodyEnd = findTag html ''</body>''
      in if bodyStart = - 1 \<or> bodyEnd = - 1 then Inr None
         else (case slice_to html bodyStart of
                 Inl e \<Rightarrow> Inl e
               | Inr head \<Rightarrow>
                   (case slice_expr html (bodyStart + 6) bodyEnd of
                      Inl e \<Rightarrow> Inl e
                    | Inr body \<Rightarrow>
                        (case slice_from html (bodyEnd + 7) of
                           Inl e \<Rightarrow> Inl e
                         | Inr tail \<Rightarrow> Inr (Some [head, body, tail])))))"

definition ExtractWrapper :: "string \<Rightarrow> error + string" where
  "ExtractWrapper indexHTML =
     (case splitHTMLBody indexHTML of
        Inl e \<Rightarrow> Inl e
      | Inr (Some [p0, p1, p2]) \<Rightarrow>
          Inr (p0 @ ''<body>'' @ NL @ TAB @ ''{{ . }}'' @ NL @ ''</body>'' @ p2)
      | Inr _ \<Rightarrow> Inl (InvalidStructure ''invalid index.html structure: expected head, body, tail''))"

definition header_footer_frame :: "string \<Rightarrow> string \<Rightarrow> string \<Rightarrow> string" where
  "header_footer_frame p0 p1 p2 =
     p0 @ ''<body>'' @ NL @ TAB @ ''{{ template '' @ DQ @ ''header.html'' @ DQ @ '' . }}'' @ NL @
     TAB @ p1 @ NL @ TAB @ ''{{ template '' @ DQ @ ''footer.html'' @ DQ @ '' . }}'' @ NL @
     ''</body>'' @ p2"

definition ExtractMain :: "string \<Rightarrow> error + string" where
  "ExtractMain indexHTML =
     (case splitHTMLBody indexHTML of
        Inl e \<Rightarrow> Inl e
      | Inr (Some [p0, p1, p2]) \<Rightarrow> Inr (header_footer_frame p0 p1 p2)
      | Inr _ \<Rightarrow> Inl (InvalidStructure ''invalid index.html structure: expected head, body, tail''))"

definition WrapPageWithHeaderFooter :: "string \<Rightarrow> error + string" where
  "WrapPageWithHeaderFooter pageHTML =
     (case splitHTMLBody pageHTML of
        Inl e \<Rightarrow> Inl e
      | Inr (Some [p0, p1, p2]) \<Rightarrow> Inr (header_footer_frame p0 p1 p2)
      | Inr _ \<Rightarrow> Inl (InvalidStructure ''invalid page HTML structure: expected head, body, tail''))"

subsection \<open>Markers\<close>

text \<open>
  \<open>ExtractTemplatesAndBody\<close>, from the content of the file on: the data path of the
  \<open>preview\<close> marker and the body.
\<close>

definition preview_dataPath :: "string \<Rightarrow> error + string" where
  "preview_dataPath content =
     (let previewStart = Index content ''<preview>''
      in if previewStart \<noteq> - 1
         then (case slice_from content previewStart of
                 Inl e \<Rightarrow> Inl e
               | Inr rest \<Rightarrow>
                   (let previewEnd = Index rest ''</preview>''
                    in if previewEnd \<noteq> - 1
                       then (case slice_expr content (previewStart + 9) (previewStart + previewEnd) of
                               Inl e \<Rightarrow> Inl e
                             | Inr x \<Rightarrow>
                                 (let dataPath = TrimSpace x
                                  in if dataPath \<noteq> [] \<and> \<not> HasPrefix dataPath ''.''
                                     then Inr (''.'' @ dataPath) else Inr dataPath))
                       else Inr []))
         else Inr [])"

definition ExtractTemplatesAndBody :: "string \<Rightarrow> error + string \<times> string" where
  "ExtractTemplatesAndBody content =
     (case preview_dataPath content of
        Inl e \<Rightarrow> Inl e
      | Inr dataPath \<Rightarrow>
          (let bodyStart = Index content ''<body>'';
               bodyEnd = Index content ''</body>''
           in if bodyStart = - 1 \<or> bodyEnd = - 1 then Inl NoBodyTag
              else (case slice_expr content (bodyStart + 6) bodyEnd of
                      Inl e \<Rightarrow> Inl e
                    | Inr bodyContent \<Rightarrow> Inr (dataPath, bodyContent))))"

definition ExtractEncryptKey :: "string \<Rightarrow> error + string" where
  "ExtractEncryptKey content =
     (let start = Index content ''<encrypt>''
      in if start = - 1 then Inr []
         else (case slice_from content start of
                 Inl e \<Rightarrow> Inl e
               | Inr rest \<Rightarrow>
                   (let end = Index rest ''</encrypt>''
                    in if end = - 1 then Inr []
                       else (case slice_expr content (start + 9) (start + end) of
                               Inl e \<Rightarrow> Inl e
                             | Inr x \<Rightarrow> Inr (TrimSpace x)))))"

text \<open>The normal form of a declared data path: empty, or starting with a dot.\<close>

definition dot_prefixed :: "string \<Rightarrow> string" where
  "dot_prefixed p = (if p = [] then [] else if HasPrefix p ''.'' then p else ''.'' @ p)"

section \<open>Components, pages and the site (pkg/generator/types.go, pkg/site/site.go)\<close>

record Component =
  Name :: string
  FilePath :: string
  Template :: string
  DataPath :: string
  Dependencies :: "string list"

record Page =
  SourcePath :: string
  OutputPath :: string
  Content :: string
  IsPreview :: bool
  EncryptKey :: string

text \<open>
  The map \<open>Components\<close> is keyed by the component's name; a \<open>range\<close> over it visits the
  components in an order Go does not fix. The model holds the components as a list, in
  the order of the visit, and every statement below is about an arbitrary list.
\<close>

subsection \<open>Tag replacer (pkg/parser/tag_replacer.go)\<close>

definition openTag :: "string \<Rightarrow> string" where
  "openTag name = ''<'' @ name @ ''>''"

definition closeTag :: "string \<Rightarrow> string" where
  "closeTag name = ''</'' @ name @ ''>''"

definition templateOpen :: "string \<Rightarrow> string" where
  "templateOpen name = ''{{ template '' @ DQ @ name @ DQ @ '' ''"

definition templateClose :: string where
  "templateClose = '' }}''"

function RemovePreviewTags :: "string \<Rightarrow> error + string" where
  "RemovePreviewTags result =
     (let start = Index result ''<preview>''
      in if start = - 1 then Inr result
         else (case slice_from result start of
                 Inl e \<Rightarrow> Inl e
               | Inr rest \<Rightarrow>
                   (let end = Index rest ''</preview>''
                    in if end = - 1 then Inr result
                       else (case slice_to result start of
                               Inl e \<Rightarrow> Inl e
                             | Inr a \<Rightarrow>
                                 (case slice_from result (start + end + 10) of
                                    Inl e \<Rightarrow> Inl e
                                  | Inr b \<Rightarrow> RemovePreviewTags (a @ b))))))"
  by pat_completeness auto
termination
proof (relation "measure length")
  show "wf (measure length)" by simp
next
  fix result :: string and start rest "end" a b
  assume "start = Index result ''<preview>''" "slice_from result start = Inr rest"
    "end = Index rest ''</preview>''" "end \<noteq> - 1"
    "slice_to result start = Inr a" "slice_from result (start + end + 10) = Inr b"
  moreover have "- 1 \<le> Index rest ''</preview>''" by (rule Index_ge)
  ultimately show "(a @ b, result) \<in> measure length"
    by (auto simp: slice_from_def slice_to_def slice_expr_def split: if_splits)
qed

declare RemovePreviewTags.simps [simp del]

function RemoveEncryptTags :: "string \<Rightarrow> error + string" where
  "RemoveEncryptTags result =
     (let start = Index result ''<encrypt>''
      in if start = - 1 then Inr result
         else (case slice_from result start of
                 Inl e \<Rightarrow> Inl e
               | Inr rest \<Rightarrow>
                   (let end = Index rest ''</encrypt>''
                    in if end = - 1 then Inr result
                       else (case slice_to result start of
                               Inl e \<Rightarrow> Inl e
                             | Inr a \<Rightarrow>
                                 (case slice_from result (start + end + 10) of
                                    Inl e \<Rightarrow> Inl e
                                  | Inr b \<Rightarrow> RemoveEncryptTags (a @ b))))))"
  by pat_completeness auto
termination
proof (relation "measure length")
  show "wf (measure length)" by simp
next
  fix result :: string and start rest "end" a b
  assume "start = Index result ''<encrypt>''" "slice_from result start = Inr rest"
    "end = Index rest ''</encrypt>''" "end \<noteq> - 1"
    "slice_to result start = Inr a" "slice_from result (start + end + 10) = Inr b"
  moreover have "- 1 \<le> Index rest ''</encrypt>''" by (rule Index_ge)
  ultimately show "(a @ b, result) \<in> measure length"
    by (auto simp: slice_from_def slice_to_def slice_expr_def split: if_splits)
qed

declare RemoveEncryptTags.simps [simp del]

text \<open>The loop of \<open>ReplaceComponentTags\<close> over the component names.\<close>

fun replace_tags_loop :: "string list \<Rightarrow> string \<Rightarrow> string" where
  "replace_tags_loop [] result = result"
| "replace_tags_loop (name # names) result =
     (if \<not> Contains result (openTag name) then replace_tags_loop names result
      else replace_tags_loop names
             (ReplaceAll (ReplaceAll result (openTag name) (templateOpen name))
                (closeTag name) templateClose))"

definition ReplaceComponentTags :: "string \<Rightarrow> Component list \<Rightarrow> error + string" where
  "ReplaceComponentTags templateContent components =
     (case RemovePreviewTags (replace_tags_loop (map Name components) templateContent) of
        Inl e \<Rightarrow> Inl e
      | Inr result \<Rightarrow> RemoveEncryptTags result)"

definition ExtractComponentDependencies :: "string \<Rightarrow> Component list \<Rightarrow> string list" where
  "ExtractComponentDependencies templateContent components =
     filter (\<lambda>name. Contains templateContent (openTag name)) (map Name components)"

text \<open>The second pass of \<open>ReplaceComponentTagsInAllComponents\<close>, over the components with their dependencies set.\<close>

fun replace_in_components :: "Component list \<Rightarrow> Component list \<Rightarrow> error + Component list" where
  "replace_in_components all [] = Inr []"
| "replace_in_components all (c # comps) =
     (case ReplaceComponentTags (Template c) all of
        Inl e \<Rightarrow> Inl e
      | Inr t \<Rightarrow>
          (case replace_in_components all comps of
             Inl e \<Rightarrow> Inl e
           | Inr comps' \<Rightarrow> Inr (c\<lparr>Template := t\<rparr> # comps')))"

definition ReplaceComponentTagsInAllComponents :: "Component list \<Rightarrow> error + Component list" where
  "ReplaceComponentTagsInAllComponents components =
     (let withDeps = map (\<lambda>c. c\<lparr>Dependencies := ExtractComponentDependencies (Template c) components\<rparr>) components
      in replace_in_components withDeps withDeps)"

subsection \<open>The site and its loading (pkg/site/site.go)\<close>

record Site =
  siteData :: SimpleDataContext
  components :: "Component list"
  pages :: "Page list"
  wrapperContent :: string
  mainTemplateContent :: string
  headerContent :: string
  footerContent :: string
  originalPageContent :: "string \<Rightarrow> string option"
  originalComponentTemplates :: "string \<Rightarrow> string option"
  originalMainContent :: string

text \<open>Reading a Go map at a missing key gives the zero value, the empty string.\<close>

definition map_get :: "(string \<Rightarrow> string option) \<Rightarrow> string \<Rightarrow> string" where
  "map_get m k = (case m k of None \<Rightarrow> [] | Some v \<Rightarrow> v)"

text \<open>The loop of \<open>Load\<close> that wraps every page and replaces its component tags.\<close>

fun process_pages :: "Component list \<Rightarrow> Page list \<Rightarrow> error + Page list" where
  "process_pages comps [] = Inr []"
| "process_pages comps (page # rest) =
     (case WrapPageWithHeaderFooter (Content page) of
        Inl e \<Rightarrow> Inl e
      | Inr wrapped \<Rightarrow>
          (case ReplaceComponentTags wrapped comps of
             Inl e \<Rightarrow> Inl e
           | Inr replaced \<Rightarrow>
               (case process_pages comps rest of
                  Inl e \<Rightarrow> Inl e
                | Inr rest' \<Rightarrow> Inr (page\<lparr>Content := replaced\<rparr> # rest'))))"

text \<open>
  \<open>Load\<close>, from the results of the loader on: the data, the parsed components, the pages
  and the three templates. Parsing the wrapper with the template engine is left out.
\<close>

definition Load ::
  "SimpleDataContext \<Rightarrow> Component list \<Rightarrow> Page list \<Rightarrow> (string \<Rightarrow> string option) \<Rightarrow> error + Site" where
  "Load dat comps0 pages0 templates =
     (let origTemplates = fold (\<lambda>c m. m(Name c \<mapsto> Template c)) comps0 Map.empty
      in case ReplaceComponentTagsInAllComponents comps0 of
           Inl e \<Rightarrow> Inl e
         | Inr comps \<Rightarrow>
      (let origPages = fold (\<lambda>p m. m(SourcePath p \<mapsto> Content p)) pages0 Map.empty
       in case process_pages comps pages0 of
            Inl e \<Rightarrow> Inl e
          | Inr pages1 \<Rightarrow>
      (case templates ''index.html'' of
         None \<Rightarrow> Inl IndexNotFound
       | Some indexHTML \<Rightarrow>
      (case ExtractWrapper indexHTML of
         Inl e \<Rightarrow> Inl e
       | Inr wrapper \<Rightarrow>
      (case ExtractMain indexHTML of
         Inl e \<Rightarrow> Inl e
       | Inr mainContent \<Rightarrow>
      (case ReplaceComponentTags mainContent comps of
         Inl e \<Rightarrow> Inl e
       | Inr mainReplaced \<Rightarrow>
      (case ReplaceComponentTags (map_get templates ''header.html'') comps of
         Inl e \<Rightarrow> Inl e
       | Inr header \<Rightarrow>
      (case ReplaceComponentTags (map_get templates ''footer.html'') comps of
         Inl e \<Rightarrow> Inl e
       | Inr footer \<Rightarrow>
           Inr \<lparr>siteData = dat, components = comps, pages = pages1, wrapperContent = wrapper,
                mainTemplateContent = mainReplaced, headerContent = header,
                footerContent = footer, originalPageContent = origPages,
                originalComponentTemplates = origTemplates,
                originalMainContent = mainContent\<rparr>))))))))"

subsection \<open>Usage analysis\<close>

definition isComponentUsedInContent :: "string \<Rightarrow> string \<Rightarrow> bool" where
  "isComponentUsedInContent componentName content = Contains content (''<'' @ componentName @ ''>'')"

text \<open>One seeding loop: every component whose tag occurs in the content is marked.\<close>

fun mark_used :: "string list \<Rightarrow> string \<Rightarrow> string set \<Rightarrow> string set" where
  "mark_used [] content used = used"
| "mark_used (name # names) content used =
     (if isComponentUsedInContent name content then mark_used names content (insert name used)
      else mark_used names content used)"

fun mark_used2 :: "string list \<Rightarrow> string \<Rightarrow> string \<Rightarrow> string set \<Rightarrow> string set" where
  "mark_used2 [] header footer used = used"
| "mark_used2 (name # names) header footer used =
     (if isComponentUsedInContent name header \<or> isComponentUsedInContent name footer
      then mark_used2 names header footer (insert name used)
      else mark_used2 names header footer used)"

fun mark_pages :: "string list \<Rightarrow> (string \<Rightarrow> string option) \<Rightarrow> Page list \<Rightarrow> string set \<Rightarrow> string set" where
  "mark_pages names orig [] used = used"
| "mark_pages names orig (page # rest) used =
     mark_pages names orig rest (mark_used names (map_get orig (SourcePath page)) used)"

definition entry_used :: "Site \<Rightarrow> string set" where
  "entry_used s =
     (let names = map Name (components s);
          used1 = mark_used names (originalMainContent s) {};
          used2 = mark_used2 names (headerContent s) (footerContent s) used1
      in mark_pages names (originalPageContent s) (pages s) used2)"

text \<open>
  The fixed-point loop. The inner loop runs over all components for one used component;
  a pass runs over the components that are in the used-set when the pass begins (Go may
  or may not visit the entries a pass adds). The state is the used-set and the flag
  \<open>changed\<close>.
\<close>

fun inner_loop :: "string \<Rightarrow> string list \<Rightarrow> string set \<times> bool \<Rightarrow> string set \<times> bool" where
  "inner_loop originalTemplate [] st = st"
| "inner_loop originalTemplate (depName # rest) (used, changed) =
     (if depName \<notin> used \<and> isComponentUsedInContent depName originalTemplate
      then inner_loop originalTemplate rest (insert depName used, True)
      else inner_loop originalTemplate rest (used, changed))"

fun pass_loop ::
  "(string \<Rightarrow> string option) \<Rightarrow> string list \<Rightarrow> string list \<Rightarrow> string set \<times> bool \<Rightarrow> string set \<times> bool" where
  "pass_loop orig names [] st = st"
| "pass_loop orig names (name # visit) st =
     pass_loop orig names visit (inner_loop (map_get orig name) names st)"

definition one_pass ::
  "(string \<Rightarrow> string option) \<Rightarrow> string list \<Rightarrow> string set \<Rightarrow> string set \<times> bool" where
  "one_pass orig names used = pass_loop orig names (filter (\<lambda>n. n \<in> used) names) (used, False)"

lemma inner_loop_grows: "fst st \<subseteq> fst (inner_loop t ds st)"
  by (induction t ds st rule: inner_loop.induct) auto

lemma inner_loop_within: "fst (inner_loop t ds st) \<subseteq> fst st \<union> set ds"
  by (induction t ds st rule: inner_loop.induct) auto

lemma inner_loop_flag: "snd (inner_loop t ds st) \<longleftrightarrow> snd st \<or> fst (inner_loop t ds st) \<noteq> fst st"
proof (induction t ds st rule: inner_loop.induct)
  case (1 t st)
  then show ?case by simp
next
  case (2 t d rest used changed)
  show ?case
  proof (cases "d \<notin> used \<and> isComponentUsedInContent d t")
    case True
    have "insert d used \<subseteq> fst (inner_loop t rest (insert d used, True))"
      using inner_loop_grows [of "(insert d used, True)"] by simp
    then have "fst (inner_loop t rest (insert d used, True)) \<noteq> used" using True by auto
    then show ?thesis using True "2.IH"(1) by simp
  next
    case False
    then show ?thesis using "2.IH"(2) by auto
  qed
qed

lemma pass_loop_grows: "fst st \<subseteq> fst (pass_loop orig names visit st)"
proof (induction visit arbitrary: st)
  case Nil
  then show ?case by simp
next
  case (Cons n visit)
  show ?case using Cons [of "inner_loop (map_get orig n) names st"] inner_loop_grows [of st] by auto
qed

lemma pass_loop_within: "fst (pass_loop orig names visit st) \<subseteq> fst st \<union> set names"
proof (induction visit arbitrary: st)
  case Nil
  then show ?case by simp
next
  case (Cons n visit)
  show ?case
    using Cons [of "inner_loop (map_get orig n) names st"] inner_loop_within [of "map_get orig n" names st]
    by auto
qed

lemma pass_loop_flag:
  "snd (pass_loop orig names visit st) \<longleftrightarrow> snd st \<or> fst (pass_loop orig names visit st) \<noteq> fst st"
proof (induction visit arbitrary: st)
  case Nil
  then show ?case by simp
next
  case (Cons n visit)
  let ?st = "inner_loop (map_get orig n) names st"
  have g1: "fst st \<subseteq> fst ?st" by (rule inner_loop_grows)
  have g2: "fst ?st \<subseteq> fst (pass_loop orig names visit ?st)" by (rule pass_loop_grows)
  show ?case
    using Cons [of ?st] inner_loop_flag [of "map_get orig n" names st] g1 g2 by auto
qed

text \<open>
  \<open>closure_loop\<close> is the loop \<open>for changed\<close>; its last argument counts the passes begun so
  far, and the count is returned with the used-set.
\<close>

function closure_loop ::
  "(string \<Rightarrow> string option) \<Rightarrow> string list \<Rightarrow> string set \<Rightarrow> nat \<Rightarrow> string set \<times> nat" where
  "closure_loop orig names used passes =
     (if snd (one_pass orig names used)
      then closure_loop orig names (fst (one_pass orig names used)) (passes + 1)
      else (fst (one_pass orig names used), passes + 1))"
  by pat_completeness auto
termination
proof (relation "measure (\<lambda>(orig, names, used, passes). card (set names - used))")
  show "wf (measure (\<lambda>(orig, names, used, passes). card (set names - used)))" by simp
next
  fix orig :: "string \<Rightarrow> string option" and names used and passes :: nat
  assume ch: "snd (one_pass orig names used)"
  let ?u = "fst (one_pass orig names used)"
  have ne: "?u \<noteq> used" using ch pass_loop_flag [of orig names _ "(used, False)"] by (simp add: one_pass_def)
  have ge: "used \<subseteq> ?u" using pass_loop_grows [of "(used, False)"] by (simp add: one_pass_def)
  have le: "?u \<subseteq> used \<union> set names" using pass_loop_within [of orig names _ "(used, False)"] by (simp add: one_pass_def)
  have "set names - ?u \<subset> set names - used" using ne ge le by blast
  then have "card (set names - ?u) < card (set names - used)"
    by (intro psubset_card_mono) simp_all
  then show "((orig, names, ?u, passes + 1), (orig, names, used, passes)) \<in>
      measure (\<lambda>(orig, names, used, passes). card (set names - used))" by simp
qed

declare closure_loop.simps [simp del]

definition findUsedComponents :: "Site \<Rightarrow> string set" where
  "findUsedComponents s =
     fst (closure_loop (originalComponentTemplates s) (map Name (components s)) (entry_used s) 0)"

text \<open>
  \<open>reportUnusedComponents\<close> collects the file paths of the components outside the
  used-set and logs them; it returns nothing and cannot fail. The model returns the
  lines logged.
\<close>

definition unused_paths :: "Site \<Rightarrow> string set \<Rightarrow> string list" where
  "unused_paths s used = map FilePath (filter (\<lambda>c. Name c \<notin> used) (components s))"

definition reportUnusedComponents :: "Site \<Rightarrow> string set \<Rightarrow> string list" where
  "reportUnusedComponents s used =
     (let unused = unused_paths s used
      in if unused \<noteq> []
         then [[], [CHR 0xE2, CHR 0x9A, CHR 0xA0] @ '' Unused components detected:''] @
              map (\<lambda>path. ''  - '' @ path) unused @ [[]]
         else [])"

subsection \<open>Reachability, as the specification defines the used-set\<close>

text \<open>
  The components reachable from a seed: the seed itself, and every component whose tag
  occurs in the original template of a reachable component.
\<close>

inductive_set reach :: "(string \<Rightarrow> string option) \<Rightarrow> string list \<Rightarrow> string set \<Rightarrow> string set"
  for orig :: "string \<Rightarrow> string option" and names :: "string list" and seed :: "string set" where
  seed: "x \<in> seed \<Longrightarrow> x \<in> reach orig names seed"
| step: "y \<in> reach orig names seed \<Longrightarrow> y \<in> set names \<Longrightarrow> x \<in> set names \<Longrightarrow>
         isComponentUsedInContent x (map_get orig y) \<Longrightarrow> x \<in> reach orig names seed"

subsection \<open>Example sites\<close>




text \<open>A site whose only component, \<open>nav\<close>, is used by the header and by nothing else.\<close>

definition nav_components :: "Component list" where
  "nav_components =
     [\<lparr>Name = ''nav'', FilePath = ''components/nav.html'', Template = ''<ul></ul>'',
       DataPath = [], Dependencies = []\<rparr>]"

definition nav_templates :: "string \<Rightarrow> string option" where
  "nav_templates =
     [''index.html'' \<mapsto> ''<html><body><p>hi</p></body></html>'',
      ''header.html'' \<mapsto> ''<nav>.site</nav>'']"

text \<open>What \<open>Load\<close> makes of it.\<close>

definition nav_site :: Site where
  "nav_site =
     \<lparr>siteData = \<lparr>data = Map.empty\<rparr>, components = nav_components, pages = [],
      wrapperContent = ''<html><body>'' @ NL @ TAB @ ''{{ . }}'' @ NL @ ''</body></html>'',
      mainTemplateContent = header_footer_frame ''<html>'' ''<p>hi</p>'' ''</html>'',
      headerContent = ''{{ template '' @ DQ @ ''nav'' @ DQ @ '' .site }}'', footerContent = [],
      originalPageContent = Map.empty,
      originalComponentTemplates = [''nav'' \<mapsto> ''<ul></ul>''],
      originalMainContent = header_footer_frame ''<html>'' ''<p>hi</p>'' ''</html>''\<rparr>"


section \<open>Path rewriter (pkg/generator/path_adjuster.go)\<close>

text \<open>
  The two regular expressions, as matchers at the start of a text. Both end in
  \<open>([a-zA-Z][^":]*?)(")\<close>: a letter, then characters other than the quote and the colon up to
  the next quote. Since the class excludes the quote, the reluctant star can only stop at
  the first quote, and fails if a colon or the end of the text comes before it.
\<close>

definition is_alpha :: "char \<Rightarrow> bool" where
  "is_alpha c = ((97 \<le> (of_char c :: nat) \<and> (of_char c :: nat) \<le> 122) \<or>
                 (65 \<le> (of_char c :: nat) \<and> (of_char c :: nat) \<le> 90))"

fun value_run :: "string \<Rightarrow> (string \<times> string) option" where
  "value_run [] = None"
| "value_run (c # cs) =
     (if c = CHR 0x22 then Some ([], cs)
      else if c = CHR '':'' then None
      else (case value_run cs of None \<Rightarrow> None | Some (v, r) \<Rightarrow> Some (c # v, r)))"

text \<open>\<open>attr_value s\<close>: the value matched at the start of \<open>s\<close> and the text after its closing quote.\<close>

fun attr_value :: "string \<Rightarrow> (string \<times> string) option" where
  "attr_value [] = None"
| "attr_value (c # cs) =
     (if is_alpha c
      then (case value_run cs of None \<Rightarrow> None | Some (v, r) \<Rightarrow> Some (c # v, r))
      else None)"

text \<open>
  A match is returned as group 1, group 2 and the text after group 3 (the closing quote).
  \<open>src_match\<close> is \<open>(src=")([a-zA-Z][^":]*?)(")\<close>.
\<close>

definition src_match :: "string \<Rightarrow> (string \<times> string \<times> string) option" where
  "src_match s =
     (if HasPrefix s (''src='' @ DQ)
      then (case attr_value (drop 5 s) of
              None \<Rightarrow> None
            | Some (v, r) \<Rightarrow> Some (''src='' @ DQ, v, r))
      else None)"

text \<open>
  \<open>href_tail\<close> is \<open>[^>]*href="\<close> with the value after it. The star is greedy: the longest
  run is tried first, so the match uses the last \<open>href="\<close> before the next \<open>>\<close> that a
  value follows.
\<close>

fun href_tail :: "string \<Rightarrow> (string \<times> string \<times> string) option" where
  "href_tail [] = None"
| "href_tail (c # cs) =
     (case (if c \<noteq> CHR ''>'' then href_tail cs else None) of
        Some (k, v, r) \<Rightarrow> Some (c # k, v, r)
      | None \<Rightarrow>
          (if HasPrefix (c # cs) (''href='' @ DQ)
           then (case attr_value (drop 6 (c # cs)) of
                   None \<Rightarrow> None
                 | Some (v, r) \<Rightarrow> Some (''href='' @ DQ, v, r))
           else None))"

text \<open>\<open>href_match\<close> is \<open>((?:link|a)[^>]*href=")([a-zA-Z][^":]*?)(")\<close>.\<close>

definition href_match :: "string \<Rightarrow> (string \<times> string \<times> string) option" where
  "href_match s =
     (if HasPrefix s ''link''
      then (case href_tail (drop 4 s) of
              None \<Rightarrow> None
            | Some (k, v, r) \<Rightarrow> Some (''link'' @ k, v, r))
      else if HasPrefix s ''a''
      then (case href_tail (drop 1 s) of
              None \<Rightarrow> None
            | Some (k, v, r) \<Rightarrow> Some (''a'' @ k, v, r))
      else None)"

lemma value_run_shorter: "value_run s = Some (v, r) \<Longrightarrow> length r < length s"
  by (induction s arbitrary: v r) (auto split: if_splits option.splits)

lemma attr_value_shorter: "attr_value s = Some (v, r) \<Longrightarrow> length r < length s"
  by (cases s) (auto split: if_splits option.splits dest: value_run_shorter)

lemma src_match_shorter: "src_match s = Some (g, v, r) \<Longrightarrow> length r < length s"
  by (auto simp: src_match_def split: if_splits option.splits dest: attr_value_shorter)

lemma href_tail_shorter: "href_tail s = Some (k, v, r) \<Longrightarrow> length r < length s"
proof (induction s arbitrary: k v r)
  case Nil
  then show ?case by simp
next
  case (Cons c cs)
  show ?case
  proof (cases "if c \<noteq> CHR ''>'' then href_tail cs else None")
    case None
    then have "attr_value (drop 6 (c # cs)) = Some (v, r)"
      using Cons.prems by (auto split: if_splits option.splits)
    then have "length r < length (drop 6 (c # cs))" by (rule attr_value_shorter)
    then show ?thesis by simp
  next
    case (Some t)
    then obtain k' where "href_tail cs = Some (k', v, r)"
      using Cons.prems by (auto split: if_splits prod.splits)
    then show ?thesis using Cons.IH by fastforce
  qed
qed

lemma href_match_shorter: "href_match s = Some (g, v, r) \<Longrightarrow> length r < length s"
  by (fastforce simp: href_match_def split: if_splits option.splits dest: href_tail_shorter)

text \<open>
  \<open>ReplaceAllString\<close> with the template \<open>${1}prefix${2}${3}\<close>: the leftmost match is
  replaced, and the search goes on after it.
\<close>

function replace_href :: "string \<Rightarrow> string \<Rightarrow> string" where
  "replace_href prefix s =
     (if s = [] then []
      else (case href_match s of
              Some (g, v, r) \<Rightarrow> g @ prefix @ v @ DQ @ replace_href prefix r
            | None \<Rightarrow> hd s # replace_href prefix (tl s)))"
  by pat_completeness auto
termination
  by (relation "measure (\<lambda>(prefix, s). length s)") (auto dest: href_match_shorter)

declare replace_href.simps [simp del]

function replace_src :: "string \<Rightarrow> string \<Rightarrow> string" where
  "replace_src prefix s =
     (if s = [] then []
      else (case src_match s of
              Some (g, v, r) \<Rightarrow> g @ prefix @ v @ DQ @ replace_src prefix r
            | None \<Rightarrow> hd s # replace_src prefix (tl s)))"
  by pat_completeness auto
termination
  by (relation "measure (\<lambda>(prefix, s). length s)") (auto dest: src_match_shorter)

declare replace_src.simps [simp del]

definition AdjustPathsForPreview :: "string \<Rightarrow> string" where
  "AdjustPathsForPreview html = replace_src ''../../'' (replace_href ''../../'' html)"

text \<open>
  \<open>depth\<close> is a Go \<open>int\<close>, of 64 bits. \<open>strings.Repeat("../", depth)\<close> panics on a
  negative count, and when the length of its result, three times the count, is above the
  largest \<open>int\<close>.
\<close>

definition maxInt :: int where
  "maxInt = 2 ^ 63 - 1"

definition Repeat :: "string \<Rightarrow> int \<Rightarrow> error + string" where
  "Repeat s count =
     (if count = 0 then Inr []
      else if count = 1 then Inr s
      else if count < 0 then Inl (RuntimePanic ''strings: negative Repeat count'')
      else if maxInt < int (length s) * count
        then Inl (RuntimePanic ''strings: Repeat output length overflow'')
      else Inr (concat (replicate (nat count) s)))"

definition AdjustPathsForDepth :: "string \<Rightarrow> int \<Rightarrow> error + string" where
  "AdjustPathsForDepth html depth =
     (if depth = 0 then Inr html
      else (case Repeat ''../'' depth of
              Inl e \<Rightarrow> Inl e
            | Inr prefix \<Rightarrow> Inr (replace_src prefix (replace_href prefix html))))"

subsection \<open>White-space cleanup (pkg/utils/html.go)\<close>

text \<open>The loop of \<open>CleanupWhitespace\<close> over the lines, appending to \<open>result\<close>.\<close>

fun cleanup_loop :: "string list \<Rightarrow> string list \<Rightarrow> string list" where
  "cleanup_loop [] result = result"
| "cleanup_loop (line # lines) result =
     (if TrimSpace line = [] then cleanup_loop lines result
      else cleanup_loop lines (result @ [line]))"

definition CleanupWhitespace :: "string \<Rightarrow> string" where
  "CleanupWhitespace content = Join (cleanup_loop (Split content NL) []) NL"

subsection \<open>The rewriting rule in the specification's terms\<close>

text \<open>
  A value is rewritten when it begins with a letter and holds no colon (and no quote, which
  would end it). The prefix for depth \<open>d\<close> is \<open>d\<close> times \<open>../\<close>.
\<close>

definition rewritable :: "string \<Rightarrow> bool" where
  "rewritable v =
     (case v of [] \<Rightarrow> False
      | c # w \<Rightarrow> is_alpha c \<and> CHR 0x22 \<notin> set w \<and> CHR '':'' \<notin> set w)"

definition up_prefix :: "nat \<Rightarrow> string" where
  "up_prefix d = concat (replicate d ''../'')"

subsection \<open>Blank lines\<close>

text \<open>
  A text of white space only is a sequence of white-space characters. A body has no blank
  line when it is empty, or none of its lines is empty or of white space only.
\<close>

inductive code_seq :: "string list \<Rightarrow> string \<Rightarrow> bool" for codes :: "string list" where
  none: "code_seq codes []"
| code: "e \<in> set codes \<Longrightarrow> code_seq codes s \<Longrightarrow> code_seq codes (e @ s)"

definition only_space :: "string \<Rightarrow> bool" where
  "only_space s = code_seq space_codes s"

definition no_blank_line :: "string \<Rightarrow> bool" where
  "no_blank_line body = (body = [] \<or> (\<forall>l \<in> set (Split body NL). \<not> only_space l))"

text \<open>\<open>inserted p s out\<close>: the text \<open>out\<close> is \<open>s\<close> with copies of \<open>p\<close> put in.\<close>

inductive inserted :: "string \<Rightarrow> string \<Rightarrow> string \<Rightarrow> bool" for p :: string where
  nothing: "inserted p [] []"
| keep: "inserted p s out \<Longrightarrow> inserted p (c # s) (c # out)"
| put: "inserted p s out \<Longrightarrow> inserted p s (p @ out)"

section \<open>Generators (pkg/generator)\<close>

text \<open>
  The template engine (\<open>html/template\<close>) and the path functions of \<open>path/filepath\<close> are
  outside the repository; the generators take them as a record of functions. \<open>exec_page\<close>
  parses a root template with the components, the header and the footer and executes it
  on the data; \<open>exec_component\<close> executes one component on its data; \<open>exec_wrapper\<close> executes
  the wrapper on a rendered component; \<open>page_depth\<close> is the depth that \<open>generatePage\<close>
  computes from the output path, \<open>preview_name\<close> the file name of a page preview. Creating
  directories and writing files are taken to succeed: a generator returns the files it
  writes, each with its path and its body.
\<close>

datatype template_error = TemplateParseError string | TemplateExecuteError string

record engine =
  exec_page :: "string \<Rightarrow> Component list \<Rightarrow> string \<Rightarrow> string \<Rightarrow> (string \<Rightarrow> val option) \<Rightarrow> template_error + string"
  exec_component :: "string \<Rightarrow> Component list \<Rightarrow> val \<Rightarrow> template_error + string"
  exec_wrapper :: "string \<Rightarrow> string \<Rightarrow> template_error + string"
  page_depth :: "string \<Rightarrow> int"
  preview_name :: "string \<Rightarrow> string"

datatype build_error = TemplateFailed template_error | Failed error

type_synonym artifact = "string \<times> string"

definition path_join :: "string \<Rightarrow> string \<Rightarrow> string" where
  "path_join dir name = dir @ ''/'' @ name"

definition GetAll :: "SimpleDataContext \<Rightarrow> (string \<Rightarrow> val option)" where
  "GetAll ctx = data ctx"

definition GenerateMainSite ::
  "engine \<Rightarrow> string \<Rightarrow> Site \<Rightarrow> string \<Rightarrow> string \<Rightarrow> string \<Rightarrow> build_error + artifact list" where
  "GenerateMainSite eng outputDir s mainContent header footer =
     (case exec_page eng mainContent (components s) header footer (GetAll (siteData s)) of
        Inl e \<Rightarrow> Inl (TemplateFailed e)
      | Inr rendered \<Rightarrow>
          (let cleaned = CleanupWhitespace rendered
           in Inr [(path_join outputDir ''index.html'', cleaned)]))"

definition generatePage ::
  "engine \<Rightarrow> string \<Rightarrow> Page \<Rightarrow> Site \<Rightarrow> string \<Rightarrow> string \<Rightarrow> build_error + artifact list" where
  "generatePage eng outputDir page s header footer =
     (case exec_page eng (Content page) (components s) header footer (GetAll (siteData s)) of
        Inl e \<Rightarrow> Inl (TemplateFailed e)
      | Inr rendered \<Rightarrow>
          (let cleaned = CleanupWhitespace rendered;
               depth = page_depth eng (OutputPath page)
           in if 0 < depth
              then (case AdjustPathsForDepth cleaned depth of
                      Inl e \<Rightarrow> Inl (Failed e)
                    | Inr adjusted \<Rightarrow> Inr [(path_join outputDir (OutputPath page), adjusted)])
              else Inr [(path_join outputDir (OutputPath page), cleaned)]))"

fun GeneratePages ::
  "engine \<Rightarrow> string \<Rightarrow> Page list \<Rightarrow> Site \<Rightarrow> string \<Rightarrow> string \<Rightarrow> build_error + artifact list" where
  "GeneratePages eng outputDir [] s header footer = Inr []"
| "GeneratePages eng outputDir (page # rest) s header footer =
     (case generatePage eng outputDir page s header footer of
        Inl e \<Rightarrow> Inl e
      | Inr files \<Rightarrow>
          (case GeneratePages eng outputDir rest s header footer of
             Inl e \<Rightarrow> Inl e
           | Inr others \<Rightarrow> Inr (files @ others)))"

definition GenerateMainSitePreview ::
  "engine \<Rightarrow> Site \<Rightarrow> string \<Rightarrow> string \<Rightarrow> string \<Rightarrow> string \<Rightarrow> build_error + artifact list" where
  "GenerateMainSitePreview eng s mainContent header footer previewDir =
     (case exec_page eng mainContent (components s) header footer (GetAll (siteData s)) of
        Inl e \<Rightarrow> Inl (TemplateFailed e)
      | Inr rendered \<Rightarrow>
          (let cleaned = AdjustPathsForPreview (CleanupWhitespace rendered)
           in Inr [(path_join previewDir ''index.html'', cleaned)]))"

definition generatePagePreview ::
  "engine \<Rightarrow> Page \<Rightarrow> Site \<Rightarrow> string \<Rightarrow> string \<Rightarrow> string \<Rightarrow> build_error + artifact list" where
  "generatePagePreview eng page s header footer previewDir =
     (case exec_page eng (Content page) (components s) header footer (GetAll (siteData s)) of
        Inl e \<Rightarrow> Inl (TemplateFailed e)
      | Inr rendered \<Rightarrow>
          (let cleaned = AdjustPathsForPreview (CleanupWhitespace rendered)
           in Inr [(path_join previewDir (preview_name eng (OutputPath page)), cleaned)]))"

fun GeneratePagePreviews ::
  "engine \<Rightarrow> Page list \<Rightarrow> Site \<Rightarrow> string \<Rightarrow> string \<Rightarrow> string \<Rightarrow> build_error + artifact list" where
  "GeneratePagePreviews eng [] s header footer previewDir = Inr []"
| "GeneratePagePreviews eng (page # rest) s header footer previewDir =
     (case generatePagePreview eng page s header footer previewDir of
        Inl e \<Rightarrow> Inl e
      | Inr files \<Rightarrow>
          (case GeneratePagePreviews eng rest s header footer previewDir of
             Inl e \<Rightarrow> Inl e
           | Inr others \<Rightarrow> Inr (files @ others)))"

definition generateComponentPreview ::
  "engine \<Rightarrow> string \<Rightarrow> Component \<Rightarrow> Site \<Rightarrow> build_error + artifact list" where
  "generateComponentPreview eng outputDir c s =
     (case fst (Get (siteData s) (DataPath c)) of
        Inl e \<Rightarrow> Inl (Failed e)
      | Inr d \<Rightarrow>
          (case exec_component eng (Name c) (components s) d of
             Inl e \<Rightarrow> Inl (TemplateFailed e)
           | Inr componentBuf \<Rightarrow>
               (case exec_wrapper eng (wrapperContent s) componentBuf of
                  Inl e \<Rightarrow> Inl (TemplateFailed e)
                | Inr resultBuf \<Rightarrow>
                    (let result = CleanupWhitespace (AdjustPathsForPreview resultBuf)
                     in Inr [(path_join outputDir (Name c @ ''.html''), result)]))))"

fun component_previews :: "engine \<Rightarrow> string \<Rightarrow> Component list \<Rightarrow> Site \<Rightarrow> build_error + artifact list" where
  "component_previews eng outputDir [] s = Inr []"
| "component_previews eng outputDir (c # rest) s =
     (case generateComponentPreview eng outputDir c s of
        Inl e \<Rightarrow> Inl e
      | Inr files \<Rightarrow>
          (case component_previews eng outputDir rest s of
             Inl e \<Rightarrow> Inl e
           | Inr others \<Rightarrow> Inr (files @ others)))"

definition GenerateComponentPreviews :: "engine \<Rightarrow> string \<Rightarrow> Site \<Rightarrow> build_error + artifact list" where
  "GenerateComponentPreviews eng outputDir s = component_previews eng outputDir (components s) s"

text \<open>
  \<open>Generate\<close> of package \<open>site\<close>: the component previews, the main site and the pages, then
  the report on unused components. Copying assets and stylesheets is left out. The result
  is the files written and the lines logged by the report.
\<close>

definition Generate :: "engine \<Rightarrow> Site \<Rightarrow> build_error + artifact list \<times> string list" where
  "Generate eng s =
     (let usedComponents = findUsedComponents s
      in case GenerateComponentPreviews eng ''./www/preview'' s of
           Inl e \<Rightarrow> Inl e
         | Inr previews \<Rightarrow>
             (case GenerateMainSite eng ''./www'' s (mainTemplateContent s) (headerContent s) (footerContent s) of
                Inl e \<Rightarrow> Inl e
              | Inr main \<Rightarrow>
                  (case GeneratePages eng ''./www'' (pages s) s (headerContent s) (footerContent s) of
                     Inl e \<Rightarrow> Inl e
                   | Inr pageFiles \<Rightarrow>
                       Inr (previews @ main @ pageFiles, reportUnusedComponents s usedComponents))))"

subsection \<open>Written artifacts\<close>

text \<open>
  A body went through the cleanup when it is what \<open>CleanupWhitespace\<close> returned, or that with
  the paths adjusted afterwards. \<open>clean_artifacts\<close>: every file of a list has such a body,
  with no blank line in it.
\<close>

definition cleaned_body :: "string \<Rightarrow> bool" where
  "cleaned_body body =
     (\<exists>rendered. body = CleanupWhitespace rendered \<or>
        (\<exists>depth. AdjustPathsForDepth (CleanupWhitespace rendered) depth = Inr body) \<or>
        body = AdjustPathsForPreview (CleanupWhitespace rendered))"

definition clean_artifacts :: "artifact list \<Rightarrow> bool" where
  "clean_artifacts files = (\<forall>(path, body) \<in> set files. cleaned_body body \<and> no_blank_line body)"

section \<open>Verification\<close>

subsection \<open>Substring search\<close>

lemma HasPrefix_take: "HasPrefix s p \<longleftrightarrow> take (length p) s = p"
  by (induction s p rule: HasPrefix.induct) auto

lemma HasPrefix_append: "HasPrefix (p @ r) p"
  by (simp add: HasPrefix_take)

text \<open>\<open>Index\<close> finds the first position at which the pattern starts.\<close>

lemma Index_none: "Index s sub = - 1 \<longleftrightarrow> (\<forall>i \<le> length s. \<not> HasPrefix (drop i s) sub)"
proof (induction s)
  case Nil
  then show ?case by (cases sub) auto
next
  case (Cons c cs)
  have "(\<forall>i \<le> length (c # cs). \<not> HasPrefix (drop i (c # cs)) sub) \<longleftrightarrow>
        \<not> HasPrefix (c # cs) sub \<and> (\<forall>i \<le> length cs. \<not> HasPrefix (drop i cs) sub)"
    (is "?L \<longleftrightarrow> ?R")
  proof
    assume l: ?L
    have "\<not> HasPrefix (drop 0 (c # cs)) sub" using l by blast
    moreover have "\<not> HasPrefix (drop i cs) sub" if "i \<le> length cs" for i
      using l [rule_format, of "Suc i"] that by simp
    ultimately show ?R by simp
  next
    assume r: ?R
    show ?L
    proof (intro allI impI)
      fix i assume "i \<le> length (c # cs)"
      then show "\<not> HasPrefix (drop i (c # cs)) sub" using r by (cases i) auto
    qed
  qed
  moreover have "- 1 \<le> Index cs sub" by (rule Index_ge)
  ultimately show ?case using Cons.IH by (auto simp: Let_def)
qed

lemma Index_first:
  "Index s sub = int k \<longleftrightarrow>
     k \<le> length s \<and> HasPrefix (drop k s) sub \<and> (\<forall>i < k. \<not> HasPrefix (drop i s) sub)"
proof (induction s arbitrary: k)
  case Nil
  then show ?case by (cases sub) auto
next
  case (Cons c cs)
  show ?case
  proof (cases "HasPrefix (c # cs) sub")
    case True
    then have "Index (c # cs) sub = 0" by simp
    moreover have "(k \<le> length (c # cs) \<and> HasPrefix (drop k (c # cs)) sub \<and>
        (\<forall>i < k. \<not> HasPrefix (drop i (c # cs)) sub)) \<longleftrightarrow> k = 0"
    proof
      assume a: "k \<le> length (c # cs) \<and> HasPrefix (drop k (c # cs)) sub \<and>
        (\<forall>i < k. \<not> HasPrefix (drop i (c # cs)) sub)"
      show "k = 0"
      proof (rule ccontr)
        assume "k \<noteq> 0"
        then have "\<not> HasPrefix (drop 0 (c # cs)) sub" using a by blast
        then show False using True by simp
      qed
    next
      assume "k = 0"
      then show "k \<le> length (c # cs) \<and> HasPrefix (drop k (c # cs)) sub \<and>
        (\<forall>i < k. \<not> HasPrefix (drop i (c # cs)) sub)" using True by simp
    qed
    ultimately show ?thesis by auto
  next
    case False
    have ge: "- 1 \<le> Index cs sub" by (rule Index_ge)
    show ?thesis
    proof (cases k)
      case 0
      then show ?thesis using False ge by (auto simp: Let_def)
    next
      case (Suc j)
      have "Index (c # cs) sub = int k \<longleftrightarrow> Index cs sub = int j"
        using False Suc ge by (auto simp: Let_def)
      moreover have "(\<forall>i < Suc j. \<not> HasPrefix (drop i (c # cs)) sub) \<longleftrightarrow>
          (\<forall>i < j. \<not> HasPrefix (drop i cs) sub)"
      proof
        assume a: "\<forall>i < Suc j. \<not> HasPrefix (drop i (c # cs)) sub"
        show "\<forall>i < j. \<not> HasPrefix (drop i cs) sub"
        proof (intro allI impI)
          fix i assume "i < j"
          then show "\<not> HasPrefix (drop i cs) sub" using a [rule_format, of "Suc i"] by simp
        qed
      next
        assume a: "\<forall>i < j. \<not> HasPrefix (drop i cs) sub"
        show "\<forall>i < Suc j. \<not> HasPrefix (drop i (c # cs)) sub"
        proof (intro allI impI)
          fix i assume "i < Suc j"
          then show "\<not> HasPrefix (drop i (c # cs)) sub" using a False by (cases i) auto
        qed
      qed
      ultimately show ?thesis using Cons.IH [of j] Suc by simp
    qed
  qed
qed

lemma Index_cases: "Index s sub = - 1 \<or> (\<exists>k. Index s sub = int k)"
proof (cases "Index s sub = - 1")
  case True
  then show ?thesis by simp
next
  case False
  then have "0 \<le> Index s sub" using Index_ge [of s sub] by linarith
  then show ?thesis using zero_le_imp_eq_int by blast
qed

lemma Index_at:
  "Index s sub = int k \<Longrightarrow> k \<le> length s \<and> take (length sub) (drop k s) = sub"
  by (simp add: Index_first HasPrefix_take)

lemma Index_bound:
  assumes "Index s sub = int k"
  shows "k + length sub \<le> length s"
proof -
  have t: "take (length sub) (drop k s) = sub" and k: "k \<le> length s"
    using assms by (simp_all add: Index_at)
  have "length (take (length sub) (drop k s)) \<le> length s - k" by simp
  then have "length sub \<le> length s - k" by (simp only: t)
  then show ?thesis using k by linarith
qed

lemma HasPrefix_split: "HasPrefix r p \<Longrightarrow> r = p @ drop (length p) r"
  by (metis HasPrefix_take append_take_drop_id)

subsection \<open>The tag search of the parser\<close>

lemma findTag_loop_miss:
  "(\<forall>i. i0 \<le> i \<and> int i < int (length html) - int (length tag) \<longrightarrow> \<not> HasPrefix (drop i html) tag) \<Longrightarrow>
   findTag_loop html tag i0 = - 1"
proof (induction html tag i0 rule: findTag_loop.induct)
  case (1 html tag i)
  show ?case
  proof (cases "int i < int (length html) - int (length tag)")
    case False
    then show ?thesis by (subst findTag_loop.simps) simp
  next
    case True
    then have no: "take (length tag) (drop i html) \<noteq> tag"
      using "1.prems" by (simp add: HasPrefix_take)
    have "findTag_loop html tag (i + 1) = - 1"
      using "1.IH" [OF True no] "1.prems" by simp
    then show ?thesis using True no by (subst findTag_loop.simps) simp
  qed
qed

lemma findTag_loop_hit:
  "i0 \<le> k \<Longrightarrow> int k < int (length html) - int (length tag) \<Longrightarrow> HasPrefix (drop k html) tag \<Longrightarrow>
   (\<forall>i. i0 \<le> i \<and> i < k \<longrightarrow> \<not> HasPrefix (drop i html) tag) \<Longrightarrow>
   findTag_loop html tag i0 = int k"
proof (induction html tag i0 rule: findTag_loop.induct)
  case (1 html tag i)
  have c: "int i < int (length html) - int (length tag)" using "1.prems" by simp
  show ?case
  proof (cases "i = k")
    case True
    then show ?thesis using c "1.prems" by (subst findTag_loop.simps) (simp add: HasPrefix_take)
  next
    case False
    then have lt: "i < k" using "1.prems" by simp
    then have no: "take (length tag) (drop i html) \<noteq> tag"
      using "1.prems" by (simp add: HasPrefix_take)
    have "findTag_loop html tag (i + 1) = int k"
      using "1.IH" [OF c no] "1.prems" lt by simp
    then show ?thesis using c no by (subst findTag_loop.simps) simp
  qed
qed

text \<open>
  \<open>findTag\<close> against \<open>strings.Index\<close>: the loop bound stops one position early, so an
  occurrence that ends the text is not reported.
\<close>

lemma findTag_Index:
  "findTag html tag =
     (if Index html tag \<noteq> - 1 \<and> Index html tag + int (length tag) < int (length html)
      then Index html tag else - 1)"
proof (cases "Index html tag = - 1")
  case True
  then have "\<forall>i \<le> length html. \<not> HasPrefix (drop i html) tag" by (simp add: Index_none)
  then have "findTag_loop html tag 0 = - 1" by (intro findTag_loop_miss) auto
  then show ?thesis using True by (simp add: findTag_def)
next
  case False
  then obtain k where k: "Index html tag = int k" using Index_cases by blast
  then have f: "k \<le> length html" "HasPrefix (drop k html) tag" "\<forall>i < k. \<not> HasPrefix (drop i html) tag"
    by (simp_all add: Index_first)
  show ?thesis
  proof (cases "int k + int (length tag) < int (length html)")
    case True
    have "findTag_loop html tag 0 = int k"
      using True f by (intro findTag_loop_hit) auto
    then show ?thesis using True k by (simp add: findTag_def)
  next
    case False
    have "findTag_loop html tag 0 = - 1"
      using False f by (intro findTag_loop_miss) (auto simp: not_less)
    then show ?thesis using False k by (simp add: findTag_def)
  qed
qed

subsection \<open>Pieces of a text, and strings read rune by rune\<close>

lemma pieces_nonempty: "pieces sep cs \<noteq> []"
  by (induction cs) (auto split: list.splits)

lemma pieces_append_nosep:
  "sep \<notin> set e \<Longrightarrow> pieces sep (e @ x) = (e @ hd (pieces sep x)) # tl (pieces sep x)"
proof (induction e)
  case Nil
  then show ?case using pieces_nonempty [of sep x] by simp
next
  case (Cons c e)
  then show ?case by auto
qed

lemma char_of_eq: "n < 256 \<Longrightarrow> (char_of (n :: nat) = c) = (n = of_char c)"
  by (simp add: char_of_eq_iff take_bit_eq_mod)

lemma EncodeRune_dot: "EncodeRune (of_char CHR ''.'') = ''.''"
  by (simp add: EncodeRune_def char_of_eq)

lemma char_of_not_dot: "128 \<le> (n :: nat) \<Longrightarrow> n < 256 \<Longrightarrow> char_of n \<noteq> CHR ''.''"
  by (simp add: char_of_eq)

lemma div_bound: "(r :: nat) < k * n \<Longrightarrow> r div n < k"
  by (simp add: less_mult_imp_div_less)

lemma EncodeRune_no_dot:
  assumes "r \<noteq> of_char CHR ''.''"
  shows "CHR ''.'' \<notin> set (EncodeRune r)"
proof (cases "r \<le> 0x7F")
  case True
  have "char_of r \<noteq> CHR ''.''"
    using True assms by (simp add: char_of_eq)
  then show ?thesis using True by (simp add: EncodeRune_def)
next
  case False
  have m: "\<And>x :: nat. char_of (128 + x mod 64) \<noteq> CHR ''.''"
    by (rule char_of_not_dot) simp_all
  have a: "r \<le> 0x7FF \<Longrightarrow> char_of (192 + r div 64) \<noteq> CHR ''.''"
    using div_bound [of r 32 64] by (intro char_of_not_dot) simp_all
  have b: "r \<le> 0xFFFF \<Longrightarrow> char_of (224 + r div 4096) \<noteq> CHR ''.''"
    using div_bound [of r 16 4096] by (intro char_of_not_dot) simp_all
  have c: "r \<le> 0x10FFFF \<Longrightarrow> char_of (240 + r div 262144) \<noteq> CHR ''.''"
    using div_bound [of r 5 262144] by (intro char_of_not_dot) simp_all
  show ?thesis
    unfolding EncodeRune_def
    using False m [THEN not_sym] a [THEN not_sym] b [THEN not_sym] c [THEN not_sym]
    by (simp add: not_le not_less)
qed

lemma splitPath_loop_segments:
  "splitPath_loop rs parts cur =
     parts @ filter (\<lambda>s. s \<noteq> [])
       ((cur @ hd (pieces CHR ''.'' (concat (map EncodeRune rs)))) #
        tl (pieces CHR ''.'' (concat (map EncodeRune rs))))"
proof (induction rs arbitrary: parts cur)
  case Nil
  then show ?case by simp
next
  case (Cons r rs)
  let ?x = "concat (map EncodeRune rs)"
  obtain f fs where d: "pieces CHR ''.'' ?x = f # fs"
    using pieces_nonempty [of "CHR ''.''" ?x] by (cases "pieces CHR ''.'' ?x") auto
  show ?case
  proof (cases "r = of_char CHR ''.''")
    case True
    have e: "EncodeRune 46 = ''.''" using EncodeRune_dot by simp
    show ?thesis using Cons d True by (simp add: e)
  next
    case False
    have p: "pieces CHR ''.'' (EncodeRune r @ ?x) = (EncodeRune r @ f) # fs"
      using pieces_append_nosep [OF EncodeRune_no_dot [OF False], of ?x] d by simp
    show ?thesis using Cons d False by (simp add: p)
  qed
qed

lemma splitPath_segments: "splitPath path = segments (rune_text path)"
proof -
  have "splitPath_loop (range_runes path) [] [] = segments (rune_text path)"
    using pieces_nonempty [of "CHR ''.''" "rune_text path"]
    by (cases "pieces CHR ''.'' (rune_text path)")
       (simp_all add: splitPath_loop_segments segments_def rune_text_def)
  moreover have "segments (rune_text []) = []"
    by (simp add: segments_def rune_text_def range_runes.simps)
  moreover have "segments (rune_text ''.'') = []"
    by (simp add: segments_def rune_text_def range_runes.simps [of "''.''"] range_runes.simps [of "[]"]
        EncodeRune_def char_of_eq)
  ultimately show ?thesis by (auto simp: splitPath_def)
qed

text \<open>Well-formed UTF-8 is read unchanged.\<close>

lemma char_of_byte: "char_of (of_char c :: nat) = c"
  by simp

lemma enc1: "(of_char c :: nat) < 0x80 \<Longrightarrow> EncodeRune (of_char c) = [c]"
  by (simp add: EncodeRune_def)

lemma off_mod: "q * n \<le> b \<Longrightarrow> b < q * n + n \<Longrightarrow> b mod n = b - q * (n :: nat)"
proof -
  assume a: "q * n \<le> b" "b < q * n + n"
  define k where "k = b - q * n"
  have "b = q * n + k" "k < n" using a by (simp_all add: k_def)
  then show ?thesis by simp
qed

lemma split_digit: "j < n \<Longrightarrow> (x * n + j) div n = x \<and> (x * n + j) mod n = (j :: nat)"
  by simp

lemma enc2:
  assumes "0xC2 \<le> (of_char c0 :: nat)" "(of_char c0 :: nat) \<le> 0xDF" "tail_byte c1"
  shows "EncodeRune ((of_char c0 mod 32) * 64 + of_char c1 mod 64) = [c0, c1]"
proof -
  define k :: nat where "k = of_char c0 - 192"
  define j :: nat where "j = of_char c1 - 128"
  have b: "(of_char c0 :: nat) = 192 + k" "(of_char c1 :: nat) = 128 + j" "2 \<le> k" "k < 32" "j < 64"
    using assms by (auto simp: tail_byte_def k_def j_def)
  have c: "c0 = char_of (192 + k)" "c1 = char_of (128 + j)"
    using b(1,2) [symmetric] by simp_all
  have m: "(192 + k) mod 32 = k" "(128 + j) mod 64 = j"
    using off_mod [of 6 32 "192 + k"] off_mod [of 2 64 "128 + j"] b by simp_all
  have r: "0x80 \<le> k * 64 + j" "k * 64 + j \<le> 0x7FF" using b by simp_all
  have d: "(k * 64 + j) div 64 = k" "(k * 64 + j) mod 64 = j" using b by simp_all
  have x: "(of_char c0 mod 32) * 64 + of_char c1 mod 64 = k * 64 + j"
    unfolding b m by simp
  have "EncodeRune (k * 64 + j) = [char_of (192 + k), char_of (128 + j)]"
    unfolding EncodeRune_def using r d by simp
  also have "\<dots> = [c0, c1]" by (simp only: c [symmetric])
  finally show ?thesis by (simp only: x)
qed

lemma enc3:
  assumes "0xE0 \<le> (of_char c0 :: nat)" "(of_char c0 :: nat) \<le> 0xEF" "second_byte c0 c1"
    "tail_byte c2"
  shows "EncodeRune ((of_char c0 mod 16) * 4096 + (of_char c1 mod 64) * 64 + of_char c2 mod 64) =
         [c0, c1, c2]"
proof -
  define k :: nat where "k = of_char c0 - 224"
  define i :: nat where "i = of_char c1 - 128"
  define j :: nat where "j = of_char c2 - 128"
  have b: "(of_char c0 :: nat) = 224 + k" "(of_char c1 :: nat) = 128 + i"
    "(of_char c2 :: nat) = 128 + j" "k < 16" "i < 64" "j < 64"
    using assms by (auto simp: tail_byte_def second_byte_def Let_def k_def i_def j_def split: if_splits)
  have s: "k = 0 \<Longrightarrow> 32 \<le> i" "k = 13 \<Longrightarrow> i < 32"
    using assms b(1,2) by (auto simp: second_byte_def Let_def split: if_splits)
  have c: "c0 = char_of (224 + k)" "c1 = char_of (128 + i)" "c2 = char_of (128 + j)"
    using b(1,2,3) [symmetric] by simp_all
  have m: "(224 + k) mod 16 = k" "(128 + i) mod 64 = i" "(128 + j) mod 64 = j"
    using off_mod [of 14 16 "224 + k"] off_mod [of 2 64 "128 + i"] off_mod [of 2 64 "128 + j"] b
    by simp_all
  define r where "r = k * 4096 + i * 64 + j"
  have e: "r = (k * 64 + i) * 64 + j" by (simp add: r_def)
  have d: "r div 4096 = k" using b by (simp add: r_def)
  have d1: "r mod 64 = j" "r div 64 = k * 64 + i"
    using split_digit [of j 64 "k * 64 + i"] b(6) unfolding e by simp_all
  have d2: "r div 64 mod 64 = i" unfolding d1 using b by simp
  have lo: "0x7FF < r"
  proof (cases "k = 0")
    case True
    then show ?thesis using s(1) by (simp add: r_def)
  next
    case False
    then have "1 \<le> k" by simp
    then have "4096 \<le> k * 4096" by simp
    then show ?thesis by (simp add: r_def)
  qed
  have hi: "r \<le> 0xFFFF" using b by (simp add: r_def)
  have sur: "\<not> (0xD800 \<le> r \<and> r \<le> 0xDFFF)"
  proof (cases "k < 13")
    case True
    then have "k * 4096 \<le> 12 * 4096" by simp
    then show ?thesis using b by (simp add: r_def)
  next
    case False
    show ?thesis
    proof (cases "k = 13")
      case True
      then show ?thesis using s(2) b by (simp add: r_def)
    next
      case False
      then have "14 * 4096 \<le> k * 4096" using \<open>\<not> k < 13\<close> by simp
      then show ?thesis by (simp add: r_def)
    qed
  qed
  have x: "(of_char c0 mod 16) * 4096 + (of_char c1 mod 64) * 64 + of_char c2 mod 64 = r"
    unfolding b m r_def by simp
  have "EncodeRune r = [char_of (224 + k), char_of (128 + i), char_of (128 + j)]"
    unfolding EncodeRune_def using lo hi sur d d1 d2 by auto
  also have "\<dots> = [c0, c1, c2]" by (simp only: c [symmetric])
  finally show ?thesis by (simp only: x)
qed

lemma enc4:
  assumes "0xF0 \<le> (of_char c0 :: nat)" "(of_char c0 :: nat) \<le> 0xF4" "second_byte c0 c1"
    "tail_byte c2" "tail_byte c3"
  shows "EncodeRune ((of_char c0 mod 8) * 262144 + (of_char c1 mod 64) * 4096 +
           (of_char c2 mod 64) * 64 + of_char c3 mod 64) = [c0, c1, c2, c3]"
proof -
  define k :: nat where "k = of_char c0 - 240"
  define h :: nat where "h = of_char c1 - 128"
  define i :: nat where "i = of_char c2 - 128"
  define j :: nat where "j = of_char c3 - 128"
  have b: "(of_char c0 :: nat) = 240 + k" "(of_char c1 :: nat) = 128 + h"
    "(of_char c2 :: nat) = 128 + i" "(of_char c3 :: nat) = 128 + j"
    "k < 5" "h < 64" "i < 64" "j < 64"
    using assms
    by (auto simp: tail_byte_def second_byte_def Let_def k_def h_def i_def j_def split: if_splits)
  have s: "k = 0 \<Longrightarrow> 16 \<le> h" "k = 4 \<Longrightarrow> h < 16"
    using assms b(1,2) by (auto simp: second_byte_def Let_def split: if_splits)
  have c: "c0 = char_of (240 + k)" "c1 = char_of (128 + h)" "c2 = char_of (128 + i)"
    "c3 = char_of (128 + j)"
    using b(1,2,3,4) [symmetric] by simp_all
  have m: "(240 + k) mod 8 = k" "(128 + h) mod 64 = h" "(128 + i) mod 64 = i" "(128 + j) mod 64 = j"
    using off_mod [of 30 8 "240 + k"] off_mod [of 2 64 "128 + h"] off_mod [of 2 64 "128 + i"]
      off_mod [of 2 64 "128 + j"] b
    by simp_all
  define r where "r = k * 262144 + h * 4096 + i * 64 + j"
  have e1: "r = ((k * 64 + h) * 64 + i) * 64 + j" by (simp add: r_def)
  have d1: "r mod 64 = j" "r div 64 = (k * 64 + h) * 64 + i"
    using split_digit [of j 64 "(k * 64 + h) * 64 + i"] b(8) unfolding e1 by simp_all
  have d2: "r div 64 mod 64 = i" "r div 64 div 64 = k * 64 + h"
    using split_digit [of i 64 "k * 64 + h"] b(7) unfolding d1 by simp_all
  have q: "r div 4096 = r div 64 div 64" "r div 262144 = r div 4096 div 64"
    using div_mult2_eq [of r 64 64] div_mult2_eq [of r 4096 64] by simp_all
  have d3: "r div 4096 mod 64 = h" "r div 4096 div 64 = k"
    using split_digit [of h 64 k] b(6) unfolding q(1) d2(2) by simp_all
  have d4: "r div 262144 = k"
    unfolding q(2) by (rule d3(2))
  have d5: "r div 4096 mod 64 = h" by (rule d3(1))
  have lo: "0xFFFF < r"
  proof (cases "k = 0")
    case True
    then have "16 * 4096 \<le> h * 4096" using s(1) by simp
    then show ?thesis by (simp add: r_def)
  next
    case False
    then have "1 * 262144 \<le> k * 262144" by simp
    then show ?thesis by (simp add: r_def)
  qed
  have hi: "r \<le> 0x10FFFF"
  proof (cases "k = 4")
    case True
    then have "h * 4096 \<le> 15 * 4096" using s(2) by simp
    then show ?thesis using True b by (simp add: r_def)
  next
    case False
    then have "k * 262144 \<le> 3 * 262144" using b(5) by simp
    moreover have "h * 4096 \<le> 63 * 4096" using b(6) by simp
    moreover have "i * 64 \<le> 63 * 64" using b(7) by simp
    ultimately show ?thesis using b(8) by (simp add: r_def)
  qed
  have x: "(of_char c0 mod 8) * 262144 + (of_char c1 mod 64) * 4096 +
           (of_char c2 mod 64) * 64 + of_char c3 mod 64 = r"
    unfolding b m r_def by simp
  have "EncodeRune r = [char_of (240 + k), char_of (128 + h), char_of (128 + i), char_of (128 + j)]"
    unfolding EncodeRune_def using lo hi d1 d2 d4 d5 by auto
  also have "\<dots> = [c0, c1, c2, c3]" by (simp only: c [symmetric])
  finally show ?thesis by (simp only: x)
qed



lemma sb2:
  "0xC2 \<le> (of_char c0 :: nat) \<Longrightarrow> (of_char c0 :: nat) \<le> 0xDF \<Longrightarrow> second_byte c0 c1 = tail_byte c1"
  by (auto simp: second_byte_def tail_byte_def Let_def)

lemma dec1: "(of_char c0 :: nat) < 0x80 \<Longrightarrow> DecodeRune (c0 # cs) = (of_char c0, 1)"
  by (simp add: Let_def)

lemma dec2:
  "0xC2 \<le> (of_char c0 :: nat) \<Longrightarrow> (of_char c0 :: nat) \<le> 0xDF \<Longrightarrow> second_byte c0 c1 \<Longrightarrow>
   DecodeRune (c0 # c1 # cs) = ((of_char c0 mod 32) * 64 + of_char c1 mod 64, 2)"
  by (auto simp: Let_def second_byte_def)

lemma dec3:
  "0xE0 \<le> (of_char c0 :: nat) \<Longrightarrow> (of_char c0 :: nat) \<le> 0xEF \<Longrightarrow> second_byte c0 c1 \<Longrightarrow>
   tail_byte c2 \<Longrightarrow>
   DecodeRune (c0 # c1 # c2 # cs) =
     ((of_char c0 mod 16) * 4096 + (of_char c1 mod 64) * 64 + of_char c2 mod 64, 3)"
  by (auto simp: Let_def second_byte_def tail_byte_def)

lemma dec4:
  "0xF0 \<le> (of_char c0 :: nat) \<Longrightarrow> (of_char c0 :: nat) \<le> 0xF4 \<Longrightarrow> second_byte c0 c1 \<Longrightarrow>
   tail_byte c2 \<Longrightarrow> tail_byte c3 \<Longrightarrow>
   DecodeRune (c0 # c1 # c2 # c3 # cs) =
     ((of_char c0 mod 8) * 262144 + (of_char c1 mod 64) * 4096 + (of_char c2 mod 64) * 64 +
      of_char c3 mod 64, 4)"
  by (auto simp: Let_def second_byte_def tail_byte_def)

lemma rune_text_Nil: "rune_text [] = []"
  by (simp add: rune_text_def range_runes.simps)

lemma rune_text_step:
  "DecodeRune (c # cs) = (r, n) \<Longrightarrow> rune_text (c # cs) = EncodeRune r @ rune_text (drop n (c # cs))"
  by (simp add: rune_text_def range_runes.simps [of "c # cs"])

lemma rune_text_1:
  "(of_char c0 :: nat) < 0x80 \<Longrightarrow> rune_text (c0 # cs) = c0 # rune_text cs"
  using rune_text_step [OF dec1, of c0 cs] by (simp add: enc1)

lemma rune_text_2:
  "0xC2 \<le> (of_char c0 :: nat) \<Longrightarrow> (of_char c0 :: nat) \<le> 0xDF \<Longrightarrow> second_byte c0 c1 \<Longrightarrow>
   rune_text (c0 # c1 # cs) = c0 # c1 # rune_text cs"
  using rune_text_step [OF dec2, of c0 c1 cs] by (simp add: enc2 sb2)

lemma rune_text_3:
  "0xE0 \<le> (of_char c0 :: nat) \<Longrightarrow> (of_char c0 :: nat) \<le> 0xEF \<Longrightarrow> second_byte c0 c1 \<Longrightarrow>
   tail_byte c2 \<Longrightarrow> rune_text (c0 # c1 # c2 # cs) = c0 # c1 # c2 # rune_text cs"
  using rune_text_step [OF dec3, of c0 c1 c2 cs] by (simp add: enc3)

lemma rune_text_4:
  "0xF0 \<le> (of_char c0 :: nat) \<Longrightarrow> (of_char c0 :: nat) \<le> 0xF4 \<Longrightarrow> second_byte c0 c1 \<Longrightarrow>
   tail_byte c2 \<Longrightarrow> tail_byte c3 \<Longrightarrow>
   rune_text (c0 # c1 # c2 # c3 # cs) = c0 # c1 # c2 # c3 # rune_text cs"
  using rune_text_step [OF dec4, of c0 c1 c2 c3 cs] by (simp add: enc4)

lemma rune_text_well_formed: "well_formed s \<Longrightarrow> rune_text s = s"
proof (induction s rule: well_formed.induct)
  case 1
  then show ?case by (simp add: rune_text_Nil)
next
  case (2 c0)
  then show ?case by (simp add: rune_text_1 rune_text_Nil)
next
  case (3 c0 c1)
  then show ?case
    by (auto simp: rune_text_1 rune_text_2 rune_text_Nil split: if_splits)
next
  case (4 c0 c1 c2)
  then show ?case
    by (auto simp: rune_text_1 rune_text_2 rune_text_3 rune_text_Nil split: if_splits)
next
  case (5 c0 c1 c2 c3 cs)
  then show ?case
    by (auto simp: rune_text_1 rune_text_2 rune_text_3 rune_text_4 split: if_splits)
qed

lemma rune_text_invalid:
  "rune_text (''.projects.caf'' @ [CHR 0xE9]) = ''.projects.caf'' @ [CHR 0xEF, CHR 0xBF, CHR 0xBD]"
proof -
  have "DecodeRune [CHR 0xE9] = (RuneError, 1)" by (simp add: Let_def)
  then have "rune_text [CHR 0xE9] = [CHR 0xEF, CHR 0xBF, CHR 0xBD]"
    using rune_text_step [of "CHR 0xE9" "[]" RuneError 1]
    by (simp add: rune_text_Nil EncodeRune_def RuneError_def char_of_eq)
  then show ?thesis by (simp add: rune_text_1 char_of_eq)
qed

subsection \<open>The fixed-point loop of the usage analyzer\<close>
























subsection \<open>The matchers of the path rewriter\<close>

lemma alpha_not_special: "is_alpha c \<Longrightarrow> c \<noteq> CHR 0x22 \<and> c \<noteq> CHR '':'' \<and> c \<noteq> CHR ''.'' \<and> c \<noteq> CHR ''/''"
  by (auto simp: is_alpha_def)

lemma value_run_sound:
  "value_run s = Some (v, r) \<Longrightarrow> s = v @ CHR 0x22 # r \<and> CHR 0x22 \<notin> set v \<and> CHR '':'' \<notin> set v"
  by (induction s arbitrary: v r) (auto split: if_splits option.splits)

lemma value_run_complete:
  "CHR 0x22 \<notin> set v \<Longrightarrow> CHR '':'' \<notin> set v \<Longrightarrow> value_run (v @ CHR 0x22 # r) = Some (v, r)"
  by (induction v) auto

lemma attr_value_sound:
  "attr_value s = Some (v, r) \<Longrightarrow> s = v @ CHR 0x22 # r \<and> rewritable v"
  by (cases s) (auto simp: rewritable_def split: if_splits option.splits dest: value_run_sound)

lemma attr_value_complete:
  "rewritable v \<Longrightarrow> attr_value (v @ CHR 0x22 # r) = Some (v, r)"
  by (cases v) (auto simp: rewritable_def value_run_complete)

lemma rewritable_no_quote: "rewritable v \<Longrightarrow> CHR 0x22 \<notin> set v"
  by (cases v) (auto simp: rewritable_def dest: alpha_not_special)

text \<open>Every match consists of group 1, which ends in a quote, a rewritable value, and the closing quote.\<close>

lemma src_match_sound:
  "src_match s = Some (g, v, r) \<Longrightarrow> g = ''src='' @ DQ \<and> s = g @ v @ DQ @ r \<and> rewritable v"
proof -
  assume a: "src_match s = Some (g, v, r)"
  then have p: "HasPrefix s (''src='' @ DQ)" and av: "attr_value (drop 5 s) = Some (v, r)" and g: "g = ''src='' @ DQ"
    by (auto simp: src_match_def split: if_splits option.splits)
  have l: "length (''src='' @ DQ) = 5" by (simp add: DQ_def)
  have "s = (''src='' @ DQ) @ drop 5 s" using HasPrefix_split [OF p] by (simp only: l)
  moreover have "drop 5 s = v @ DQ @ r" and "rewritable v"
    using attr_value_sound [OF av] by (simp_all add: DQ_def)
  ultimately have "s = g @ v @ DQ @ r" using g by metis
  then show ?thesis using g \<open>rewritable v\<close> by blast
qed

lemma href_tail_sound:
  "href_tail s = Some (k, v, r) \<Longrightarrow>
     (\<exists>m. k = m @ ''href='' @ DQ \<and> CHR ''>'' \<notin> set m) \<and> s = k @ v @ DQ @ r \<and> rewritable v"
proof (induction s arbitrary: k v r)
  case Nil
  then show ?case by simp
next
  case (Cons c cs)
  show ?case
  proof (cases "if c \<noteq> CHR ''>'' then href_tail cs else None")
    case None
    then have p: "HasPrefix (c # cs) (''href='' @ DQ)" and av: "attr_value (drop 6 (c # cs)) = Some (v, r)"
      and k: "k = ''href='' @ DQ"
      using Cons.prems by (auto split: if_splits option.splits)
    have l: "length (''href='' @ DQ) = 6" by (simp add: DQ_def)
    have "c # cs = (''href='' @ DQ) @ drop 6 (c # cs)" using HasPrefix_split [OF p] by (simp only: l)
    moreover have "drop 6 (c # cs) = v @ DQ @ r" and rv: "rewritable v"
      using attr_value_sound [OF av] by (simp_all add: DQ_def)
    ultimately have "c # cs = k @ v @ DQ @ r" using k by metis
    then have "c # cs = k @ v @ DQ @ r \<and> rewritable v" using rv by blast
    moreover have "k = [] @ ''href='' @ DQ \<and> CHR ''>'' \<notin> set []" using k by simp
    ultimately show ?thesis by blast
  next
    case (Some t)
    then obtain k' where c: "c \<noteq> CHR ''>''" and t: "href_tail cs = Some (k', v, r)" and k: "k = c # k'"
      using Cons.prems by (auto split: if_splits prod.splits)
    obtain m where m: "k' = m @ ''href='' @ DQ" "CHR ''>'' \<notin> set m" and s: "cs = k' @ v @ DQ @ r" and v: "rewritable v"
      using Cons.IH [OF t] by blast
    have "k = (c # m) @ ''href='' @ DQ \<and> CHR ''>'' \<notin> set (c # m)" using m k c by simp
    then show ?thesis using s v k by (metis append_Cons)
  qed
qed

lemma href_match_sound:
  "href_match s = Some (g, v, r) \<Longrightarrow>
     (\<exists>m. g = m @ ''href='' @ DQ) \<and> s = g @ v @ DQ @ r \<and> rewritable v"
proof -
  assume a: "href_match s = Some (g, v, r)"
  show ?thesis
  proof (cases "HasPrefix s ''link''")
    case True
    then obtain k where t: "href_tail (drop 4 s) = Some (k, v, r)" and g: "g = ''link'' @ k"
      using a by (auto simp: href_match_def split: option.splits)
    have l: "length ''link'' = 4" by simp
    have s: "s = ''link'' @ drop 4 s" using HasPrefix_split [OF True] by (simp only: l)
    obtain m where "k = m @ ''href='' @ DQ" and "drop 4 s = k @ v @ DQ @ r" and "rewritable v"
      using href_tail_sound [OF t] by blast
    then have "g = (''link'' @ m) @ ''href='' @ DQ \<and> s = g @ v @ DQ @ r \<and> rewritable v"
      using g s by (metis append_assoc)
    then show ?thesis by blast
  next
    case False
    then have p: "HasPrefix s ''a''" using a by (auto simp: href_match_def split: if_splits)
    then obtain k where t: "href_tail (drop 1 s) = Some (k, v, r)" and g: "g = ''a'' @ k"
      using a False by (auto simp: href_match_def split: option.splits)
    have l: "length ''a'' = 1" by simp
    have s: "s = ''a'' @ drop 1 s" using HasPrefix_split [OF p] by (simp only: l)
    obtain m where "k = m @ ''href='' @ DQ" and "drop 1 s = k @ v @ DQ @ r" and "rewritable v"
      using href_tail_sound [OF t] by blast
    then have "g = (''a'' @ m) @ ''href='' @ DQ \<and> s = g @ v @ DQ @ r \<and> rewritable v"
      using g s by (metis append_assoc)
    then show ?thesis by blast
  qed
qed

subsection \<open>Texts with a single quoted value\<close>

lemma first_quote_split:
  "q \<notin> set a \<Longrightarrow> q \<notin> set a' \<Longrightarrow> a @ q # b = a' @ q # b' \<Longrightarrow> a = a' \<and> b = b'"
proof (induction a arbitrary: a')
  case Nil
  then show ?case by (cases a') auto
next
  case (Cons x xs)
  then show ?case by (cases a') auto
qed

lemma two_quote_unique:
  assumes "q \<notin> set a" "q \<notin> set v" "q \<notin> set b" "q \<notin> set v'"
    and e: "a @ q # v @ q # b = a' @ q # v' @ q # b'"
  shows "a' = a \<and> v' = v \<and> b' = b"
proof -
  have "count_list (a @ q # v @ q # b) q = 2" using assms(1-3) by simp
  then have "count_list (a' @ q # v' @ q # b') q = 2" using e by simp
  then have c: "count_list a' q = 0 \<and> count_list b' q = 0" using assms(4) by simp
  then have a': "q \<notin> set a'" and b': "q \<notin> set b'" by (simp_all add: count_list_0_iff)
  have 1: "a = a' \<and> v @ q # b = v' @ q # b'"
    by (rule first_quote_split [OF assms(1) a' e])
  then have "v = v' \<and> b = b'"
    by (intro first_quote_split [OF assms(2) assms(4)]) simp
  then show ?thesis using 1 by simp
qed

text \<open>
  In a text \<open>A " v " B\<close> with no further quote, a match at a suffix is the match of this
  value: the suffix begins inside \<open>A\<close>, and group 1 is the rest of \<open>A\<close> with the quote.
\<close>

lemma match_in_two_quote:
  assumes q: "CHR 0x22 \<notin> set A" "CHR 0x22 \<notin> set v" "CHR 0x22 \<notin> set B"
    and s: "a0 @ b = A @ DQ @ v @ DQ @ B"
    and m: "b = g0 @ DQ @ v' @ DQ @ r" and v': "rewritable v'"
  shows "A = a0 @ g0 \<and> v' = v \<and> r = B"
proof -
  have "(a0 @ g0) @ CHR 0x22 # v' @ CHR 0x22 # r = A @ CHR 0x22 # v @ CHR 0x22 # B"
    using s m by (simp add: DQ_def)
  then have "a0 @ g0 = A \<and> v' = v \<and> r = B"
    using two_quote_unique [OF q rewritable_no_quote [OF v'], of "a0 @ g0" r] by simp
  then show ?thesis by simp
qed

lemma src_match_in_two_quote:
  assumes "CHR 0x22 \<notin> set A" "CHR 0x22 \<notin> set v" "CHR 0x22 \<notin> set B"
    and "a0 @ b = A @ DQ @ v @ DQ @ B" and "src_match b = Some (g, v', r)"
  shows "A = a0 @ ''src='' \<and> g = ''src='' @ DQ \<and> v' = v \<and> r = B \<and> rewritable v"
proof -
  have g: "g = ''src='' @ DQ" and b: "b = g @ v' @ DQ @ r" and rv: "rewritable v'"
    using src_match_sound [OF assms(5)] by simp_all
  have "b = ''src='' @ DQ @ v' @ DQ @ r" using b g by simp
  from match_in_two_quote [OF assms(1-4) this rv] show ?thesis using g rv by simp
qed

lemma href_match_in_two_quote:
  assumes "CHR 0x22 \<notin> set A" "CHR 0x22 \<notin> set v" "CHR 0x22 \<notin> set B"
    and "a0 @ b = A @ DQ @ v @ DQ @ B" and "href_match b = Some (g, v', r)"
  shows "(\<exists>m. A = a0 @ m @ ''href='' \<and> g = m @ ''href='' @ DQ) \<and> v' = v \<and> r = B \<and> rewritable v"
proof -
  obtain m where g: "g = m @ ''href='' @ DQ" and b: "b = g @ v' @ DQ @ r" and rv: "rewritable v'"
    using href_match_sound [OF assms(5)] by blast
  have "b = (m @ ''href='') @ DQ @ v' @ DQ @ r" using b g by simp
  from match_in_two_quote [OF assms(1-4) this rv] have "A = a0 @ m @ ''href='' \<and> v' = v \<and> r = B" by simp
  then show ?thesis using g rv by blast
qed

lemma src_match_needs_quote: "src_match s = Some t \<Longrightarrow> CHR 0x22 \<in> set s"
  by (cases t) (auto dest!: src_match_sound simp: DQ_def)

lemma href_match_needs_quote: "href_match s = Some t \<Longrightarrow> CHR 0x22 \<in> set s"
  by (cases t) (auto dest!: href_match_sound simp: DQ_def)

subsection \<open>The replacement loops\<close>

lemma replace_src_skip:
  "(\<And>a b. x = a @ b \<Longrightarrow> b \<noteq> [] \<Longrightarrow> src_match (b @ y) = None) \<Longrightarrow>
   replace_src p (x @ y) = x @ replace_src p y"
proof (induction x)
  case Nil
  then show ?case by simp
next
  case (Cons c cs)
  have "src_match ((c # cs) @ y) = None" using Cons.prems [of "[]" "c # cs"] by simp
  moreover have "replace_src p (cs @ y) = cs @ replace_src p y"
  proof (rule Cons.IH)
    fix a b assume "cs = a @ b" "b \<noteq> []"
    then show "src_match (b @ y) = None" using Cons.prems [of "c # a" b] by simp
  qed
  ultimately show ?case by (subst replace_src.simps) simp
qed

lemma replace_href_skip:
  "(\<And>a b. x = a @ b \<Longrightarrow> b \<noteq> [] \<Longrightarrow> href_match (b @ y) = None) \<Longrightarrow>
   replace_href p (x @ y) = x @ replace_href p y"
proof (induction x)
  case Nil
  then show ?case by simp
next
  case (Cons c cs)
  have "href_match ((c # cs) @ y) = None" using Cons.prems [of "[]" "c # cs"] by simp
  moreover have "replace_href p (cs @ y) = cs @ replace_href p y"
  proof (rule Cons.IH)
    fix a b assume "cs = a @ b" "b \<noteq> []"
    then show "href_match (b @ y) = None" using Cons.prems [of "c # a" b] by simp
  qed
  ultimately show ?case by (subst replace_href.simps) simp
qed

lemma replace_src_none:
  assumes "\<And>a b. s = a @ b \<Longrightarrow> src_match b = None"
  shows "replace_src p s = s"
proof -
  have "replace_src p (s @ []) = s @ replace_src p []"
    by (rule replace_src_skip) (use assms in simp)
  then show ?thesis by (simp add: replace_src.simps [of p "[]"])
qed

lemma replace_href_none:
  assumes "\<And>a b. s = a @ b \<Longrightarrow> href_match b = None"
  shows "replace_href p s = s"
proof -
  have "replace_href p (s @ []) = s @ replace_href p []"
    by (rule replace_href_skip) (use assms in simp)
  then show ?thesis by (simp add: replace_href.simps [of p "[]"])
qed

lemma replace_quote_free:
  assumes "CHR 0x22 \<notin> set s"
  shows "replace_src p s = s" and "replace_href p s = s"
proof -
  show "replace_src p s = s"
  proof (rule replace_src_none)
    fix a b assume "s = a @ b"
    then have "CHR 0x22 \<notin> set b" using assms by simp
    then show "src_match b = None" using src_match_needs_quote [of b] by (cases "src_match b") auto
  qed
  show "replace_href p s = s"
  proof (rule replace_href_none)
    fix a b assume "s = a @ b"
    then have "CHR 0x22 \<notin> set b" using assms by simp
    then show "href_match b = None" using href_match_needs_quote [of b] by (cases "href_match b") auto
  qed
qed

subsection \<open>One quoted value, rewritten or left alone\<close>

lemma src_not_href: "a @ m @ ''href='' \<noteq> pre @ ''src=''"
proof
  assume "a @ m @ ''href='' = pre @ ''src=''"
  then have "rev (a @ m @ ''href='') = rev (pre @ ''src='')" by simp
  then show False by simp
qed

lemma src_match_here:
  "rewritable v \<Longrightarrow> src_match (''src='' @ DQ @ v @ DQ @ post) = Some (''src='' @ DQ, v, post)"
  by (simp add: src_match_def DQ_def attr_value_complete)

lemma href_tail_complete:
  "CHR ''>'' \<notin> set m \<Longrightarrow> rewritable v \<Longrightarrow> href_tail (m @ ''href='' @ DQ @ v @ DQ @ r) \<noteq> None"
proof (induction m)
  case Nil
  have "attr_value (v @ CHR 0x22 # r) = Some (v, r)" using Nil by (simp add: attr_value_complete)
  then show ?case by (auto simp: DQ_def split: option.splits)
next
  case (Cons c m)
  then show ?case by (auto split: option.splits)
qed

lemma href_match_complete:
  assumes "t = ''link'' \<or> t = ''a''" and "CHR ''>'' \<notin> set m" and "rewritable v"
  shows "href_match (t @ m @ ''href='' @ DQ @ v @ DQ @ r) \<noteq> None"
  using assms(1) href_tail_complete [OF assms(2,3), of r]
  by (auto simp: href_match_def split: option.splits)

lemma replace_src_match:
  assumes "src_match s = Some (g, v, r)"
  shows "replace_src p s = g @ p @ v @ DQ @ replace_src p r"
proof -
  have "s \<noteq> []" using assms by (auto simp: src_match_def)
  then show ?thesis using assms by (subst replace_src.simps) simp
qed

lemma replace_href_match:
  assumes "href_match s = Some (g, v, r)"
  shows "replace_href p s = g @ p @ v @ DQ @ replace_href p r"
proof -
  have "s \<noteq> []" using assms by (auto simp: href_match_def)
  then show ?thesis using assms by (subst replace_href.simps) simp
qed

lemma src_value_rewritten:
  assumes v: "rewritable v" and q: "CHR 0x22 \<notin> set pre" "CHR 0x22 \<notin> set post"
  shows "replace_src p (replace_href p (pre @ ''src='' @ DQ @ v @ DQ @ post)) =
         pre @ ''src='' @ DQ @ p @ v @ DQ @ post"
proof -
  let ?y = "''src='' @ DQ @ v @ DQ @ post"
  have qa: "CHR 0x22 \<notin> set (pre @ ''src='')" using q by simp
  note qv = rewritable_no_quote [OF v]
  have e: "pre @ ?y = (pre @ ''src='') @ DQ @ v @ DQ @ post" by simp
  have h: "replace_href p (pre @ ?y) = pre @ ?y"
  proof (rule replace_href_none)
    fix a b assume s: "pre @ ?y = a @ b"
    show "href_match b = None"
    proof (cases "href_match b")
      case None
      then show ?thesis .
    next
      case (Some t)
      obtain g v' r where t: "t = (g, v', r)" by (cases t)
      have "a @ b = (pre @ ''src='') @ DQ @ v @ DQ @ post" using s e by simp
      from href_match_in_two_quote [OF qa qv q(2) this Some [unfolded t]]
      obtain m where "pre @ ''src='' = a @ m @ ''href=''" by blast
      then show ?thesis using src_not_href [of a m pre] by simp
    qed
  qed
  have k: "replace_src p (pre @ ?y) = pre @ replace_src p ?y"
  proof (rule replace_src_skip)
    fix a b assume s: "pre = a @ b" and b: "b \<noteq> []"
    show "src_match (b @ ?y) = None"
    proof (cases "src_match (b @ ?y)")
      case None
      then show ?thesis .
    next
      case (Some t)
      obtain g v' r where t: "t = (g, v', r)" by (cases t)
      have "a @ (b @ ?y) = (pre @ ''src='') @ DQ @ v @ DQ @ post" using s by simp
      from src_match_in_two_quote [OF qa qv q(2) this Some [unfolded t]]
      have "pre @ ''src='' = a @ ''src=''" by simp
      then show ?thesis using s b by simp
    qed
  qed
  have "replace_src p ?y = (''src='' @ DQ) @ p @ v @ DQ @ replace_src p post"
    by (rule replace_src_match [OF src_match_here [OF v]])
  then have "replace_src p ?y = ''src='' @ DQ @ p @ v @ DQ @ post"
    using replace_quote_free(1) [OF q(2)] by simp
  then show ?thesis using h k by simp
qed

lemma no_match_not_rewritable:
  assumes q: "CHR 0x22 \<notin> set a" "CHR 0x22 \<notin> set w" "CHR 0x22 \<notin> set b" and w: "\<not> rewritable w"
  shows "replace_src p (a @ DQ @ w @ DQ @ b) = a @ DQ @ w @ DQ @ b"
    and "replace_href p (a @ DQ @ w @ DQ @ b) = a @ DQ @ w @ DQ @ b"
proof -
  show "replace_src p (a @ DQ @ w @ DQ @ b) = a @ DQ @ w @ DQ @ b"
  proof (rule replace_src_none)
    fix x y assume s: "a @ DQ @ w @ DQ @ b = x @ y"
    show "src_match y = None"
    proof (cases "src_match y")
      case None
      then show ?thesis .
    next
      case (Some t)
      obtain g v' r where t: "t = (g, v', r)" by (cases t)
      from src_match_in_two_quote [OF q s [symmetric] Some [unfolded t]] w show ?thesis by simp
    qed
  qed
  show "replace_href p (a @ DQ @ w @ DQ @ b) = a @ DQ @ w @ DQ @ b"
  proof (rule replace_href_none)
    fix x y assume s: "a @ DQ @ w @ DQ @ b = x @ y"
    show "href_match y = None"
    proof (cases "href_match y")
      case None
      then show ?thesis .
    next
      case (Some t)
      obtain g v' r where t: "t = (g, v', r)" by (cases t)
      from href_match_in_two_quote [OF q s [symmetric] Some [unfolded t]] w show ?thesis by simp
    qed
  qed
qed

lemma href_pass_rewrites:
  assumes t: "t = ''link'' \<or> t = ''a''" and m: "CHR ''>'' \<notin> set mid" and v: "rewritable v"
    and q: "CHR 0x22 \<notin> set mid" "CHR 0x22 \<notin> set post"
  shows "CHR 0x22 \<notin> set pre \<Longrightarrow>
     replace_href p (pre @ t @ mid @ ''href='' @ DQ @ v @ DQ @ post) =
     pre @ t @ mid @ ''href='' @ DQ @ p @ v @ DQ @ post"
proof (induction pre)
  case Nil
  let ?y = "t @ mid @ ''href='' @ DQ @ v @ DQ @ post"
  have qt: "CHR 0x22 \<notin> set (t @ mid @ ''href='')" using t q by auto
  obtain g v' r where h: "href_match ?y = Some (g, v', r)"
    using href_match_complete [OF t m v, of post] by (cases "href_match ?y") auto
  have e: "[] @ ?y = (t @ mid @ ''href='') @ DQ @ v @ DQ @ post" by simp
  from href_match_in_two_quote [OF qt rewritable_no_quote [OF v] q(2) e h]
  have g: "g = (t @ mid @ ''href='') @ DQ" and v': "v' = v" and r: "r = post" by auto
  have "replace_href p ?y = g @ p @ v' @ DQ @ replace_href p r" by (rule replace_href_match [OF h])
  then show ?case using g v' r replace_quote_free(2) [OF q(2)] by simp
next
  case (Cons c cs)
  let ?y = "t @ mid @ ''href='' @ DQ @ v @ DQ @ post"
  have ih: "replace_href p (cs @ ?y) = cs @ t @ mid @ ''href='' @ DQ @ p @ v @ DQ @ post"
    using Cons by simp
  show ?case
  proof (cases "href_match ((c # cs) @ ?y)")
    case None
    then have "replace_href p ((c # cs) @ ?y) = c # replace_href p (cs @ ?y)"
      by (subst replace_href.simps) simp
    then show ?thesis using ih by simp
  next
    case (Some u)
    obtain g v' r where u: "u = (g, v', r)" by (cases u)
    have qa: "CHR 0x22 \<notin> set ((c # cs) @ t @ mid @ ''href='')" using t q Cons.prems by auto
    have e: "[] @ (c # cs) @ ?y = ((c # cs) @ t @ mid @ ''href='') @ DQ @ v @ DQ @ post" by simp
    from href_match_in_two_quote [OF qa rewritable_no_quote [OF v] q(2) e Some [unfolded u]]
    have g: "g = ((c # cs) @ t @ mid @ ''href='') @ DQ" and v': "v' = v" and r: "r = post" by auto
    have "replace_href p ((c # cs) @ ?y) = g @ p @ v' @ DQ @ replace_href p r"
      by (rule replace_href_match [OF Some [unfolded u]])
    then show ?thesis using g v' r replace_quote_free(2) [OF q(2)] by simp
  qed
qed

lemma href_value_rewritten:
  assumes t: "t = ''link'' \<or> t = ''a''" and m: "CHR ''>'' \<notin> set mid" and v: "rewritable v"
    and q: "CHR 0x22 \<notin> set pre" "CHR 0x22 \<notin> set mid" "CHR 0x22 \<notin> set post"
    and p: "CHR 0x22 \<notin> set p" "\<not> rewritable (p @ v)"
  shows "replace_src p (replace_href p (pre @ t @ mid @ ''href='' @ DQ @ v @ DQ @ post)) =
         pre @ t @ mid @ ''href='' @ DQ @ p @ v @ DQ @ post"
proof -
  have qa: "CHR 0x22 \<notin> set (pre @ t @ mid @ ''href='')" using t q by auto
  have qv: "CHR 0x22 \<notin> set (p @ v)" using p(1) rewritable_no_quote [OF v] by simp
  have "replace_src p ((pre @ t @ mid @ ''href='') @ DQ @ (p @ v) @ DQ @ post) =
        (pre @ t @ mid @ ''href='') @ DQ @ (p @ v) @ DQ @ post"
    by (rule no_match_not_rewritable(1) [OF qa qv q(3) p(2)])
  then show ?thesis
    using href_pass_rewrites [OF t m v q(2,3) q(1), of p] by simp
qed

lemma up_prefix_chars: "set (up_prefix d) \<subseteq> {CHR ''.'', CHR ''/''}"
  by (induction d) (auto simp: up_prefix_def)

lemma up_prefix_not_rewritable: "0 < d \<Longrightarrow> \<not> rewritable (up_prefix d @ v)"
  by (cases d) (auto simp: up_prefix_def rewritable_def is_alpha_def)

subsection \<open>Key derivation\<close>

lemma xor_loop_eq:
  "length result \<le> length u \<Longrightarrow> j \<le> length result \<Longrightarrow>
   xor_loop result u j = Inr (take j result @ map2 (XOR) (drop j result) (drop j u))"
proof (induction result u j rule: xor_loop.induct)
  case (1 result u j)
  show ?case
  proof (cases "j < length result")
    case False
    then show ?thesis using "1.prems" by (subst xor_loop.simps) simp
  next
    case True
    then have ju: "j < length u" using "1.prems" by simp
    let ?r = "result[j := (result ! j) XOR (u ! j)]"
    have ih: "xor_loop ?r u (j + 1) =
        Inr (take (j + 1) ?r @ map2 (XOR) (drop (j + 1) ?r) (drop (j + 1) u))"
      using "1.IH" [OF True ju] "1.prems" True by simp
    have t: "take (j + 1) ?r = take j result @ [(result ! j) XOR (u ! j)]"
      using True by (simp add: take_Suc_conv_app_nth)
    have d: "drop (j + 1) ?r = drop (Suc j) result" by simp
    have "map2 (XOR) (drop j result) (drop j u) =
        ((result ! j) XOR (u ! j)) # map2 (XOR) (drop (Suc j) result) (drop (Suc j) u)"
      using True ju by (simp add: Cons_nth_drop_Suc [symmetric])
    then show ?thesis
      using True ju ih t d by (subst xor_loop.simps) simp
  qed
qed

lemma xor_loop_xor_bytes:
  "length result \<le> length u \<Longrightarrow> xor_loop result u 0 = Inr (xor_bytes result u)"
  by (simp add: xor_loop_eq xor_bytes_def)

lemma length_xor_bytes: "length (xor_bytes a b) = min (length a) (length b)"
  by (simp add: xor_bytes_def)

lemma length_foldl_xor:
  "length a = n \<Longrightarrow> \<forall>b \<in> set bs. length b = n \<Longrightarrow> length (foldl xor_bytes a bs) = n"
  by (induction bs arbitrary: a) (simp_all add: length_xor_bytes)

lemma length_std_U:
  "\<forall>k m. length (mac k m) = 32 \<Longrightarrow> length (std_U mac password salt i j) = 32"
  by (cases j) simp_all

lemma length_std_T:
  "\<forall>k m. length (mac k m) = 32 \<Longrightarrow> length (std_T mac password salt c i) = 32"
  unfolding std_T_def by (rule length_foldl_xor) (auto simp: length_std_U)

lemma std_T_Suc:
  "1 \<le> c \<Longrightarrow> std_T mac password salt (Suc c) i =
     xor_bytes (std_T mac password salt c i) (std_U mac password salt i c)"
  by (simp add: std_T_def)

lemma pbkdf2Block_loop_standard:
  "\<forall>k m. length (mac k m) = 32 \<Longrightarrow> hkey h = password \<Longrightarrow> 1 \<le> i \<Longrightarrow> i \<le> iter \<Longrightarrow>
     u = std_U mac password salt b (nat i - 1) \<Longrightarrow>
     result = std_T mac password salt (nat i) b \<Longrightarrow>
     pbkdf2Block_loop mac h u result i iter = Inr (std_T mac password salt (nat iter) b)"
proof (induction mac h u result i iter rule: pbkdf2Block_loop.induct)
  case (1 mac h u result i iter)
  have len: "\<forall>k m. length (mac k m) = 32" using "1.prems" by simp
  show ?case
  proof (cases "i < iter")
    case False
    then have "i = iter" using "1.prems" by simp
    then show ?thesis using "1.prems" by (subst pbkdf2Block_loop.simps) simp
  next
    case True
    define h1 where "h1 = hmac_Write (hmac_Reset h) u"
    define u1 where "u1 = hmac_Sum mac h1"
    have k1: "hkey h1 = password" using "1.prems" by (simp add: h1_def hmac_Write_def hmac_Reset_def)
    have "nat i = Suc (nat i - 1)" using "1.prems" by simp
    then have "std_U mac password salt b (nat i) = mac password (std_U mac password salt b (nat i - 1))"
      by (metis std_U.simps(2))
    then have u1: "u1 = std_U mac password salt b (nat (i + 1) - 1)"
      using "1.prems" by (simp add: u1_def h1_def hmac_Sum_def hmac_Write_def hmac_Reset_def nat_add_distrib)
    have "length result \<le> length u1"
      using len "1.prems" by (simp add: length_std_T u1_def hmac_Sum_def)
    then have x: "xor_loop result u1 0 = Inr (xor_bytes result u1)"
      by (rule xor_loop_xor_bytes)
    have "nat (i + 1) = Suc (nat i)" using "1.prems" by simp
    moreover have "1 \<le> nat i" using "1.prems" by simp
    ultimately have r1: "xor_bytes result u1 = std_T mac password salt (nat (i + 1)) b"
      using "1.prems" u1 by (simp add: std_T_Suc)
    have "pbkdf2Block_loop mac h1 u1 (xor_bytes result u1) (i + 1) iter =
        Inr (std_T mac password salt (nat iter) b)"
      using "1.IH" [OF True h1_def u1_def x len k1 _ _ u1 r1] True "1.prems" by simp
    then show ?thesis
      using True x by (subst pbkdf2Block_loop.simps) (simp add: h1_def u1_def Let_def)
  qed
qed

lemma blockNum_bytes_1: "blockNum_bytes 1 = INT_32_BE 1"
  by (simp add: blockNum_bytes_def INT_32_BE_def)

lemma pbkdf2Block_standard:
  assumes len: "\<forall>k m. length (mac k m) = 32" and it: "1 \<le> iter"
  shows "pbkdf2Block mac password salt iter 1 = Inr (std_T mac password salt (nat iter) 1)"
proof -
  let ?h = "hmac_Write (hmac_Write (hmac_New password) salt) (blockNum_bytes 1)"
  have k: "hkey ?h = password" by (simp add: hmac_Write_def hmac_New_def)
  have u: "hmac_Sum mac ?h = std_U mac password salt 1 (nat 1 - 1)"
    by (simp add: hmac_Sum_def hmac_Write_def hmac_New_def blockNum_bytes_1)
  have r: "hmac_Sum mac ?h = std_T mac password salt (nat 1) 1"
    using u by (simp add: std_T_def)
  show ?thesis
    unfolding pbkdf2Block_def Let_def
    by (rule pbkdf2Block_loop_standard [OF len k _ it u r]) simp
qed

text \<open>
  Claim C3. With a keyed hash of 32-byte output (HMAC-SHA-256) and at least one iteration,
  \<open>pbkdf2 password salt iterations 32\<close> is the first block of standard PBKDF2:
  \<open>T\<^sub>1 = U\<^sub>1 xor U\<^sub>2 xor ... xor U\<^sub>c\<close> with \<open>U\<^sub>1\<close> the hash of the salt followed by the
  big-endian 32-bit block index 1 and each later \<open>U\<^sub>j\<close> the hash of \<open>U\<^sub>j\<^sub>-\<^sub>1\<close>, all under the
  password as key.
\<close>

theorem pbkdf2_is_standard:
  assumes "\<forall>k m. length (mac k m) = 32" and "1 \<le> iter"
  shows "pbkdf2 mac password salt iter 32 = Inr (std_T mac password salt (nat iter) 1)"
proof -
  have n: "go_div (32 + sha256_Size - 1) sha256_Size = 1"
    by (simp add: go_div_def sha256_Size_def)
  have b: "pbkdf2Block mac password salt iter 1 = Inr (std_T mac password salt (nat iter) 1)"
    using assms by (rule pbkdf2Block_standard)
  have l: "pbkdf2_loop mac password salt iter 1 1 [] = Inr (std_T mac password salt (nat iter) 1)"
    using b by (subst pbkdf2_loop.simps, subst pbkdf2_loop.simps) simp
  show ?thesis
    using n l assms(1) by (simp add: pbkdf2_def length_std_T)
qed

text \<open>Three iterations with the stand-in hash: the loop body runs twice.\<close>

lemma toy_U0: "std_U toy_mac [1, 2] [3] 1 0 = replicate 32 7"
  by (simp add: toy_mac_def INT_32_BE_def)

lemma toy_U1: "std_U toy_mac [1, 2] [3] 1 (Suc 0) = replicate 32 34"
  by (simp add: toy_U0) (simp add: toy_mac_def)

lemma toy_U2: "std_U toy_mac [1, 2] [3] 1 (Suc (Suc 0)) = replicate 32 34"
  by (simp add: toy_U1 del: std_U.simps add: std_U.simps(2) [of _ _ _ _ "Suc 0"]) (simp add: toy_mac_def)

lemma upt_1_3: "[Suc 0..<3] = [Suc 0, Suc (Suc 0)]"
  by (simp add: upt_rec)

lemma xor_bytes_replicate: "xor_bytes (replicate n a) (replicate n b) = replicate n (a XOR b)"
  by (induction n) (simp_all add: xor_bytes_def)

theorem pbkdf2_is_standard_witness:
  "(\<forall>k m. length (toy_mac k m) = 32) \<and> (1::int) \<le> 3 \<and>
   pbkdf2 toy_mac [1, 2] [3] 3 32 = Inr (replicate 32 7)"
proof -
  have h: "\<forall>k m. length (toy_mac k m) = 32" by (simp add: toy_mac_def)
  have t: "std_T toy_mac [1, 2] [3] (nat 3) 1 = replicate 32 7"
    by (simp add: std_T_def upt_1_3 toy_U0 toy_U1 toy_U2 xor_bytes_replicate del: std_U.simps)
  have "pbkdf2 toy_mac [1, 2] [3] 3 32 = Inr (std_T toy_mac [1, 2] [3] (nat 3) 1)"
    by (rule pbkdf2_is_standard [OF h]) simp
  then have p: "pbkdf2 toy_mac [1, 2] [3] 3 32 = Inr (replicate 32 7)"
    by (simp only: t)
  show ?thesis
  proof (intro conjI)
    show "\<forall>k m. length (toy_mac k m) = 32" by (rule h)
    show "(1::int) \<le> 3" by simp
    show "pbkdf2 toy_mac [1, 2] [3] 3 32 = Inr (replicate 32 7)" by (rule p)
  qed
qed

subsection \<open>Entry points of the usage analyzer\<close>

lemmas eval_strings = ReplaceAll.simps RemovePreviewTags.simps RemoveEncryptTags.simps
  ReplaceComponentTags_def Contains_def openTag_def closeTag_def templateOpen_def templateClose_def
  slice_from_def slice_to_def slice_expr_def DQ_def NL_def TAB_def

lemma nav_header:
  "ReplaceComponentTags ''<nav>.site</nav>'' nav_components = Inr (''{{ template '' @ DQ @ ''nav'' @ DQ @ '' .site }}'')"
  by (simp add: eval_strings nav_components_def)

lemma nav_comps:
  "ReplaceComponentTagsInAllComponents nav_components = Inr nav_components"
  by (simp add: ReplaceComponentTagsInAllComponents_def ExtractComponentDependencies_def eval_strings nav_components_def)

lemma nav_index:
  "ExtractMain ''<html><body><p>hi</p></body></html>'' = Inr (header_footer_frame ''<html>'' ''<p>hi</p>'' ''</html>'')"
  "ExtractWrapper ''<html><body><p>hi</p></body></html>'' =
     Inr (''<html><body>'' @ NL @ TAB @ ''{{ . }}'' @ NL @ ''</body></html>'')"
  by (simp_all add: ExtractMain_def ExtractWrapper_def splitHTMLBody_def findTag_Index slice_from_def slice_to_def slice_expr_def)

lemma nav_main:
  "ReplaceComponentTags (header_footer_frame ''<html>'' ''<p>hi</p>'' ''</html>'') nav_components =
     Inr (header_footer_frame ''<html>'' ''<p>hi</p>'' ''</html>'')"
  by (simp add: eval_strings nav_components_def header_footer_frame_def)

lemma nav_footer: "ReplaceComponentTags [] nav_components = Inr []"
  by (simp add: eval_strings nav_components_def)

lemma nav_load: "Load \<lparr>data = Map.empty\<rparr> nav_components [] nav_templates = Inr nav_site"
proof -
  have t: "nav_templates ''index.html'' = Some ''<html><body><p>hi</p></body></html>''"
    "map_get nav_templates ''header.html'' = ''<nav>.site</nav>''"
    "map_get nav_templates ''footer.html'' = []"
    by (simp_all add: nav_templates_def map_get_def)
  have o: "fold (\<lambda>c m. m(Name c \<mapsto> Template c)) nav_components Map.empty = [''nav'' \<mapsto> ''<ul></ul>'']"
    by (simp add: nav_components_def)
  show ?thesis
    unfolding Load_def Let_def
    by (simp add: nav_comps t nav_index nav_main nav_header nav_footer o nav_site_def)
qed

text \<open>
  Claim C4 says that every scan reads text from before the rewriting. The header and the
  footer are scanned after it: loading the site whose header uses \<open>nav\<close> stores the
  rewritten header, in which the tag \<open><nav>\<close> no longer occurs, so the used-set is empty
  and \<open>nav\<close> is listed as unused, although the header's own text names it.
\<close>

theorem header_reference_not_tracked:
  "Load \<lparr>data = Map.empty\<rparr> nav_components [] nav_templates = Inr nav_site \<and>
   isComponentUsedInContent ''nav'' (map_get nav_templates ''header.html'') \<and>
   \<not> isComponentUsedInContent ''nav'' (headerContent nav_site) \<and>
   findUsedComponents nav_site = {} \<and>
   unused_paths nav_site (findUsedComponents nav_site) = [''components/nav.html'']"
proof -
  have e: "entry_used nav_site = {}"
    by (simp add: entry_used_def nav_site_def nav_components_def isComponentUsedInContent_def Contains_def
          header_footer_frame_def DQ_def NL_def TAB_def)
  have u: "findUsedComponents nav_site = {}"
    by (simp add: findUsedComponents_def e closure_loop.simps one_pass_def)
  have 1: "isComponentUsedInContent ''nav'' (map_get nav_templates ''header.html'')"
    by (simp add: nav_templates_def map_get_def isComponentUsedInContent_def Contains_def)
  have 2: "\<not> isComponentUsedInContent ''nav'' (headerContent nav_site)"
    by (simp add: nav_site_def isComponentUsedInContent_def Contains_def DQ_def)
  have 3: "unused_paths nav_site {} = [''components/nav.html'']"
    by (simp add: unused_paths_def nav_site_def nav_components_def)
  show ?thesis using nav_load 1 2 u 3 by simp
qed

subsection \<open>Body boundaries\<close>

lemma splitHTMLBody_absent:
  "Index doc ''<body>'' = - 1 \<or> Index doc ''</body>'' = - 1 \<Longrightarrow> splitHTMLBody doc = Inr None"
  by (auto simp: splitHTMLBody_def findTag_Index Let_def)

lemma slices_of_concat:
  assumes "length x = 6" and "length y = 7" and doc: "doc = h @ x @ b @ y @ t"
  shows "slice_to doc (int (length h)) = Inr h"
    and "slice_expr doc (int (length h) + 6) (int (length h + 6 + length b)) = Inr b"
    and "slice_from doc (int (length h + 6 + length b) + 7) = Inr t"
  using assms by (simp_all add: slice_to_def slice_from_def slice_expr_def nat_add_distrib)

lemma splitHTMLBody_found:
  assumes doc: "doc = h @ ''<body>'' @ b @ ''</body>'' @ t" and t: "t \<noteq> []"
    and s: "Index doc ''<body>'' = int (length h)"
    and e: "Index doc ''</body>'' = int (length h + 6 + length b)"
  shows "splitHTMLBody doc = Inr (Some [h, b, t])"
proof -
  have l: "length doc = length h + 6 + length b + 7 + length t" using doc by simp
  have "0 < length t" using t by simp
  then have fs: "findTag doc ''<body>'' = int (length h)"
    and fe: "findTag doc ''</body>'' = int (length h + 6 + length b)"
    using s e l by (simp_all add: findTag_Index)
  have x: "length ''<body>'' = 6" and y: "length ''</body>'' = 7" by simp_all
  note sl = slices_of_concat [OF x y doc]
  show ?thesis
    by (simp only: splitHTMLBody_def Let_def fs fe sl) simp
qed

text \<open>
  Claim C5, as the code has it. \<open>ExtractWrapper\<close>, \<open>ExtractMain\<close> and the page wrapping step
  locate the body by literal search for the first \<open><body>\<close> and the first \<open></body>\<close>.
  When either marker does not occur in the document, all three return the structural
  error. When the first opening marker comes before the first closing marker and text
  follows the latter, all three succeed with the document split at these two markers.
  Further occurrences of a marker are not looked for.
\<close>

theorem body_boundaries_first_occurrence:
  "(Index doc ''<body>'' = - 1 \<or> Index doc ''</body>'' = - 1 \<longrightarrow>
      ExtractWrapper doc = Inl (InvalidStructure ''invalid index.html structure: expected head, body, tail'') \<and>
      ExtractMain doc = Inl (InvalidStructure ''invalid index.html structure: expected head, body, tail'') \<and>
      WrapPageWithHeaderFooter doc = Inl (InvalidStructure ''invalid page HTML structure: expected head, body, tail'')) \<and>
   (doc = h @ ''<body>'' @ b @ ''</body>'' @ t \<and> t \<noteq> [] \<and>
    Index doc ''<body>'' = int (length h) \<and> Index doc ''</body>'' = int (length h + 6 + length b) \<longrightarrow>
      ExtractWrapper doc = Inr (h @ ''<body>'' @ NL @ TAB @ ''{{ . }}'' @ NL @ ''</body>'' @ t) \<and>
      ExtractMain doc = Inr (header_footer_frame h b t) \<and>
      WrapPageWithHeaderFooter doc = Inr (header_footer_frame h b t))"
proof (intro conjI impI)
  assume a: "Index doc ''<body>'' = - 1 \<or> Index doc ''</body>'' = - 1"
  note n = splitHTMLBody_absent [OF a]
  show "ExtractWrapper doc = Inl (InvalidStructure ''invalid index.html structure: expected head, body, tail'')"
    using n by (simp add: ExtractWrapper_def)
  show "ExtractMain doc = Inl (InvalidStructure ''invalid index.html structure: expected head, body, tail'')"
    using n by (simp add: ExtractMain_def)
  show "WrapPageWithHeaderFooter doc = Inl (InvalidStructure ''invalid page HTML structure: expected head, body, tail'')"
    using n by (simp add: WrapPageWithHeaderFooter_def)
next
  assume a: "doc = h @ ''<body>'' @ b @ ''</body>'' @ t \<and> t \<noteq> [] \<and>
    Index doc ''<body>'' = int (length h) \<and> Index doc ''</body>'' = int (length h + 6 + length b)"
  have n: "splitHTMLBody doc = Inr (Some [h, b, t])"
    by (rule splitHTMLBody_found
          [OF a [THEN conjunct1] a [THEN conjunct2, THEN conjunct1]
              a [THEN conjunct2, THEN conjunct2, THEN conjunct1]
              a [THEN conjunct2, THEN conjunct2, THEN conjunct2]])
  show "ExtractWrapper doc = Inr (h @ ''<body>'' @ NL @ TAB @ ''{{ . }}'' @ NL @ ''</body>'' @ t)"
    using n by (simp add: ExtractWrapper_def)
  show "ExtractMain doc = Inr (header_footer_frame h b t)"
    using n by (simp add: ExtractMain_def)
  show "WrapPageWithHeaderFooter doc = Inr (header_footer_frame h b t)"
    using n by (simp add: WrapPageWithHeaderFooter_def)
qed

theorem body_boundaries_first_occurrence_witness:
  "Index ''<p>no body</p>'' ''<body>'' = - 1 \<and>
   ExtractWrapper ''<p>no body</p>'' =
     Inl (InvalidStructure ''invalid index.html structure: expected head, body, tail'') \<and>
   ExtractMain ''<html><body>hi</body></html>'' = Inr (header_footer_frame ''<html>'' ''hi'' ''</html>'') \<and>
   WrapPageWithHeaderFooter ''<html><body>hi</body></html>'' =
     Inr (header_footer_frame ''<html>'' ''hi'' ''</html>'')"
proof -
  have a: "Index ''<p>no body</p>'' ''<body>'' = - 1" by simp
  have b: "''<html><body>hi</body></html>'' = ''<html>'' @ ''<body>'' @ ''hi'' @ ''</body>'' @ ''</html>'' \<and>
      ''</html>'' \<noteq> [] \<and>
      Index ''<html><body>hi</body></html>'' ''<body>'' = int (length ''<html>'') \<and>
      Index ''<html><body>hi</body></html>'' ''</body>'' = int (length ''<html>'' + 6 + length ''hi'')"
    by simp
  note t1 = body_boundaries_first_occurrence [of "''<p>no body</p>''", THEN conjunct1, rule_format, OF disjI1, OF a]
  note t2 = body_boundaries_first_occurrence
      [of "''<html><body>hi</body></html>''" "''<html>''" "''hi''" "''</html>''", THEN conjunct2, rule_format, OF b]
  from a t1 t2 show ?thesis by blast
qed

text \<open>
  Against claim C5 as stated: a document with two opening and two closing markers is not
  rejected; it is split at the first of each.
\<close>

theorem duplicated_boundary_accepted:
  "ExtractWrapper ''<body>a<body>b</body>c</body>d'' =
     Inr (''<body>'' @ NL @ TAB @ ''{{ . }}'' @ NL @ ''</body>'' @ ''c</body>d'') \<and>
   ExtractMain ''<body>a<body>b</body>c</body>d'' = Inr (header_footer_frame [] ''a<body>b'' ''c</body>d'') \<and>
   WrapPageWithHeaderFooter ''<body>a<body>b</body>c</body>d'' =
     Inr (header_footer_frame [] ''a<body>b'' ''c</body>d'')"
proof -
  have "splitHTMLBody ''<body>a<body>b</body>c</body>d'' = Inr (Some [[], ''a<body>b'', ''c</body>d''])"
    by (simp add: splitHTMLBody_def findTag_Index slice_to_def slice_from_def slice_expr_def)
  then show ?thesis
    by (simp add: ExtractWrapper_def ExtractMain_def WrapPageWithHeaderFooter_def)
qed

text \<open>
  A closing marker that ends the document is not found: the loop of \<open>findTag\<close> stops one
  position early.
\<close>

lemma closing_marker_at_end_not_found:
  "findTag ''<body>x</body>'' ''</body>'' = - 1 \<and>
   ExtractWrapper ''<body>x</body>'' =
     Inl (InvalidStructure ''invalid index.html structure: expected head, body, tail'')"
  by (simp add: ExtractWrapper_def splitHTMLBody_def findTag_Index)

text \<open>A closing marker before the opening one makes the slice expression panic.\<close>

lemma closing_before_opening_panics:
  "ExtractWrapper ''</body><body>x'' = Inl (RuntimePanic ''slice bounds out of range'')"
  by (simp add: ExtractWrapper_def splitHTMLBody_def findTag_Index slice_to_def slice_from_def slice_expr_def)

subsection \<open>Marker extraction\<close>

lemma below_9: "i < 9 \<Longrightarrow> i = 0 \<or> i = 1 \<or> i = 2 \<or> i = 3 \<or> i = 4 \<or> i = 5 \<or> i = 6 \<or> i = 7 \<or> (i::nat) = 8"
  by arith

text \<open>A closing marker cannot start inside the opening marker.\<close>

lemma no_close_in_preview:
  assumes "HasPrefix r ''<preview>''" and "i < 9"
  shows "\<not> HasPrefix (drop i r) ''</preview>''"
proof -
  obtain t where r: "r = ''<preview>'' @ t" using HasPrefix_split [OF assms(1)] by blast
  show ?thesis using below_9 [OF assms(2)] by (auto simp: r)
qed

lemma no_close_in_encrypt:
  assumes "HasPrefix r ''<encrypt>''" and "i < 9"
  shows "\<not> HasPrefix (drop i r) ''</encrypt>''"
proof -
  obtain t where r: "r = ''<encrypt>'' @ t" using HasPrefix_split [OF assms(1)] by blast
  show ?thesis using below_9 [OF assms(2)] by (auto simp: r)
qed

text \<open>The two slices of a marker search, given where the markers were found.\<close>

lemma marker_slices:
  assumes k: "Index content opn = int k" and n: "length opn = 9"
    and e: "Index (drop k content) cls = int e" and m: "length cls = 10"
    and sep: "\<And>i. i < 9 \<Longrightarrow> \<not> HasPrefix (drop i (drop k content)) cls"
  shows "slice_from content (int k) = Inr (drop k content)"
    and "9 \<le> e"
    and "slice_expr content (int k + 9) (int k + int e) = Inr (take (e - 9) (drop (k + 9) content))"
proof -
  have kl: "k \<le> length content" using Index_at [OF k] by simp
  then show "slice_from content (int k) = Inr (drop k content)"
    by (simp add: slice_from_def slice_expr_def)
  have "HasPrefix (drop e (drop k content)) cls" using e by (simp add: Index_first)
  then show e9: "9 \<le> e" using sep [of e] by (meson not_less)
  have "e + length cls \<le> length (drop k content)" by (rule Index_bound [OF e])
  then have "k + e \<le> length content" using kl by simp
  then show "slice_expr content (int k + 9) (int k + int e) = Inr (take (e - 9) (drop (k + 9) content))"
    using e9 by (simp add: slice_expr_def nat_add_distrib nat_diff_distrib)
qed

lemma preview_dataPath_total: "\<exists>p. preview_dataPath content = Inr p"
proof (cases "Index content ''<preview>'' = - 1")
  case True
  then show ?thesis by (simp add: preview_dataPath_def)
next
  case False
  then obtain k where k: "Index content ''<preview>'' = int k" using Index_cases by blast
  have hp: "HasPrefix (drop k content) ''<preview>''" using k by (simp add: Index_first)
  show ?thesis
  proof (cases "Index (drop k content) ''</preview>'' = - 1")
    case True
    have "slice_from content (int k) = Inr (drop k content)"
      using Index_at [OF k] by (simp add: slice_from_def slice_expr_def)
    then show ?thesis using k True by (simp add: preview_dataPath_def)
  next
    case False
    then obtain e where e: "Index (drop k content) ''</preview>'' = int e" using Index_cases by blast
    note s = marker_slices [OF k _ e _ no_close_in_preview [OF hp], simplified]
    show ?thesis using k e s by (simp add: preview_dataPath_def Let_def)
  qed
qed

lemma ExtractEncryptKey_total: "\<exists>p. ExtractEncryptKey content = Inr p"
proof (cases "Index content ''<encrypt>'' = - 1")
  case True
  then show ?thesis by (simp add: ExtractEncryptKey_def)
next
  case False
  then obtain k where k: "Index content ''<encrypt>'' = int k" using Index_cases by blast
  have hp: "HasPrefix (drop k content) ''<encrypt>''" using k by (simp add: Index_first)
  show ?thesis
  proof (cases "Index (drop k content) ''</encrypt>'' = - 1")
    case True
    have "slice_from content (int k) = Inr (drop k content)"
      using Index_at [OF k] by (simp add: slice_from_def slice_expr_def)
    then show ?thesis using k True by (simp add: ExtractEncryptKey_def)
  next
    case False
    then obtain e where e: "Index (drop k content) ''</encrypt>'' = int e" using Index_cases by blast
    note s = marker_slices [OF k _ e _ no_close_in_encrypt [OF hp], simplified]
    show ?thesis using k e s by (simp add: ExtractEncryptKey_def Let_def)
  qed
qed

text \<open>The first span: the text between the first opening marker and the first closing marker after it.\<close>

lemma preview_dataPath_span:
  assumes c: "content = h @ ''<preview>'' @ x @ ''</preview>'' @ r"
    and k: "Index content ''<preview>'' = int (length h)"
    and e: "Index (''<preview>'' @ x @ ''</preview>'' @ r) ''</preview>'' = int (9 + length x)"
  shows "preview_dataPath content = Inr (dot_prefixed (TrimSpace x))"
proof -
  have d: "drop (length h) content = ''<preview>'' @ x @ ''</preview>'' @ r" using c by simp
  have hp: "HasPrefix (drop (length h) content) ''<preview>''" using k by (simp add: Index_first)
  have e': "Index (drop (length h) content) ''</preview>'' = int (9 + length x)" using e d by simp
  note s = marker_slices [OF k _ e' _ no_close_in_preview [OF hp], simplified]
  have x: "take (9 + length x - 9) (drop (length h + 9) content) = x" using c by simp
  have "slice_expr content (int (length h) + 9) (int (length h) + int (9 + length x)) = Inr x"
    using s(3) x by simp
  then show ?thesis
    using k e' s(1) by (simp add: preview_dataPath_def Let_def dot_prefixed_def)
qed

lemma ExtractEncryptKey_span:
  assumes c: "content = h @ ''<encrypt>'' @ x @ ''</encrypt>'' @ r"
    and k: "Index content ''<encrypt>'' = int (length h)"
    and e: "Index (''<encrypt>'' @ x @ ''</encrypt>'' @ r) ''</encrypt>'' = int (9 + length x)"
  shows "ExtractEncryptKey content = Inr (TrimSpace x)"
proof -
  have d: "drop (length h) content = ''<encrypt>'' @ x @ ''</encrypt>'' @ r" using c by simp
  have hp: "HasPrefix (drop (length h) content) ''<encrypt>''" using k by (simp add: Index_first)
  have e': "Index (drop (length h) content) ''</encrypt>'' = int (9 + length x)" using e d by simp
  note s = marker_slices [OF k _ e' _ no_close_in_encrypt [OF hp], simplified]
  have x: "take (9 + length x - 9) (drop (length h + 9) content) = x" using c by simp
  have "slice_expr content (int (length h) + 9) (int (length h) + int (9 + length x)) = Inr x"
    using s(3) x by simp
  then show ?thesis
    using k e' s(1) by (simp add: ExtractEncryptKey_def Let_def)
qed

text \<open>What a slice between two positions of a text returns.\<close>

lemma slice_expr_mid:
  "slice_expr (a @ b @ c) (int (length a)) (int (length a + length b)) = Inr b"
  by (simp add: slice_expr_def)

text \<open>
  \<open>ExtractTemplatesAndBody\<close> fails on the body markers only: when one of them is missing,
  or when the first \<open></body>\<close> begins before the end of the first \<open><body>\<close>.
\<close>

lemma ExtractTemplatesAndBody_fails_iff:
  "(\<exists>e. ExtractTemplatesAndBody doc = Inl e) \<longleftrightarrow>
     (Index doc ''<body>'' = - 1 \<or> Index doc ''</body>'' = - 1 \<or>
      Index doc ''</body>'' < Index doc ''<body>'' + 6)"
proof -
  obtain p where p: "preview_dataPath doc = Inr p" using preview_dataPath_total by blast
  show ?thesis
  proof (cases "Index doc ''<body>'' = - 1 \<or> Index doc ''</body>'' = - 1")
    case True
    then show ?thesis by (auto simp: ExtractTemplatesAndBody_def p)
  next
    case False
    then obtain i j where i: "Index doc ''<body>'' = int i" and j: "Index doc ''</body>'' = int j"
      using Index_cases by blast
    have "j + length ''</body>'' \<le> length doc" by (rule Index_bound [OF j])
    then have jl: "j \<le> length doc" by simp
    show ?thesis
      using jl by (auto simp: ExtractTemplatesAndBody_def p i j slice_expr_def Let_def split: if_splits)
  qed
qed

text \<open>
  Claim C7, as the code has it. In a component document whose first \<open><preview>X</preview>\<close>
  span stands in the head (before the first \<open><body>\<close>), the declared data path is \<open>X\<close>
  without its surrounding white space, with a dot put before it when it is not empty and
  has none; a blank \<open>X\<close> gives the empty path. \<open>ExtractTemplatesAndBody\<close> returns this
  path whenever it returns, and it returns it with the body when the first \<open></body>\<close>
  closes that body. In a page whose first \<open><encrypt>X</encrypt>\<close> span stands in the head,
  the passphrase is \<open>X\<close> without its surrounding white space. Whatever follows the first
  span, further markers included, plays no part and is never an error:
  \<open>ExtractEncryptKey\<close> returns on every document, and \<open>ExtractTemplatesAndBody\<close> fails
  on the body markers only.
\<close>

theorem first_marker_span_extracted:
  "(content = h @ ''<preview>'' @ x @ ''</preview>'' @ m @ ''<body>'' @ r \<and>
    Index content ''<preview>'' = int (length h) \<and>
    Index (''<preview>'' @ x @ ''</preview>'' @ m @ ''<body>'' @ r) ''</preview>'' = int (9 + length x) \<and>
    Index content ''<body>'' = int (length h + 9 + length x + 10 + length m) \<longrightarrow>
      (\<forall>dataPath b. ExtractTemplatesAndBody content = Inr (dataPath, b) \<longrightarrow>
         dataPath = dot_prefixed (TrimSpace x)) \<and>
      (\<forall>body t. r = body @ ''</body>'' @ t \<and>
         Index content ''</body>'' = int (length h + 9 + length x + 10 + length m + 6 + length body) \<longrightarrow>
         ExtractTemplatesAndBody content = Inr (dot_prefixed (TrimSpace x), body))) \<and>
   (page = h' @ ''<encrypt>'' @ y @ ''</encrypt>'' @ m' @ ''<body>'' @ r' \<and>
    Index page ''<encrypt>'' = int (length h') \<and>
    Index (''<encrypt>'' @ y @ ''</encrypt>'' @ m' @ ''<body>'' @ r') ''</encrypt>'' = int (9 + length y) \<and>
    Index page ''<body>'' = int (length h' + 9 + length y + 10 + length m') \<longrightarrow>
      ExtractEncryptKey page = Inr (TrimSpace y)) \<and>
   ((\<exists>e. ExtractTemplatesAndBody doc = Inl e) \<longleftrightarrow>
      (Index doc ''<body>'' = - 1 \<or> Index doc ''</body>'' = - 1 \<or>
       Index doc ''</body>'' < Index doc ''<body>'' + 6)) \<and>
   (\<exists>k. ExtractEncryptKey doc = Inr k)"
proof (intro conjI impI allI)
  assume a: "content = h @ ''<preview>'' @ x @ ''</preview>'' @ m @ ''<body>'' @ r \<and>
    Index content ''<preview>'' = int (length h) \<and>
    Index (''<preview>'' @ x @ ''</preview>'' @ m @ ''<body>'' @ r) ''</preview>'' = int (9 + length x) \<and>
    Index content ''<body>'' = int (length h + 9 + length x + 10 + length m)"
  have p: "preview_dataPath content = Inr (dot_prefixed (TrimSpace x))"
    by (rule preview_dataPath_span
          [OF a [THEN conjunct1] a [THEN conjunct2, THEN conjunct1]
              a [THEN conjunct2, THEN conjunct2, THEN conjunct1]])
  {
    fix dataPath b
    assume "ExtractTemplatesAndBody content = Inr (dataPath, b)"
    then show "dataPath = dot_prefixed (TrimSpace x)"
      using p by (auto simp: ExtractTemplatesAndBody_def Let_def split: if_splits sum.splits)
  }
  {
    fix body t
    assume b: "r = body @ ''</body>'' @ t \<and>
         Index content ''</body>'' = int (length h + 9 + length x + 10 + length m + 6 + length body)"
    let ?a = "h @ ''<preview>'' @ x @ ''</preview>'' @ m @ ''<body>''"
    have c: "content = ?a @ body @ (''</body>'' @ t)"
      using a [THEN conjunct1] b [THEN conjunct1] by simp
    have l: "length ?a = length h + 9 + length x + 10 + length m + 6" by simp
    have s: "slice_expr content (int (length ?a)) (int (length ?a + length body)) = Inr body"
      unfolding c by (rule slice_expr_mid)
    have i: "Index content ''<body>'' + 6 = int (length ?a)"
      using a [THEN conjunct2, THEN conjunct2, THEN conjunct2] by simp
    have j: "Index content ''</body>'' = int (length ?a + length body)"
      using b [THEN conjunct2] by simp
    have n: "Index content ''<body>'' \<noteq> - 1" "Index content ''</body>'' \<noteq> - 1"
      using a [THEN conjunct2, THEN conjunct2, THEN conjunct2] b [THEN conjunct2] by simp_all
    show "ExtractTemplatesAndBody content = Inr (dot_prefixed (TrimSpace x), body)"
      unfolding ExtractTemplatesAndBody_def Let_def p i j using n s by simp
  }
next
  assume a: "page = h' @ ''<encrypt>'' @ y @ ''</encrypt>'' @ m' @ ''<body>'' @ r' \<and>
    Index page ''<encrypt>'' = int (length h') \<and>
    Index (''<encrypt>'' @ y @ ''</encrypt>'' @ m' @ ''<body>'' @ r') ''</encrypt>'' = int (9 + length y) \<and>
    Index page ''<body>'' = int (length h' + 9 + length y + 10 + length m')"
  show "ExtractEncryptKey page = Inr (TrimSpace y)"
    by (rule ExtractEncryptKey_span
          [OF a [THEN conjunct1] a [THEN conjunct2, THEN conjunct1]
              a [THEN conjunct2, THEN conjunct2, THEN conjunct1]])
next
  show "(\<exists>e. ExtractTemplatesAndBody doc = Inl e) \<longleftrightarrow>
      (Index doc ''<body>'' = - 1 \<or> Index doc ''</body>'' = - 1 \<or>
       Index doc ''</body>'' < Index doc ''<body>'' + 6)"
    by (rule ExtractTemplatesAndBody_fails_iff)
  show "\<exists>k. ExtractEncryptKey doc = Inr k" by (rule ExtractEncryptKey_total)
qed

lemma TrimSpace_example: "TrimSpace '' projects.Featured '' = ''projects.Featured''"
  by (simp add: TrimSpace_def trim_left.simps leading_space_def space_codes_def wide_spaces_def)

lemma TrimSpace_secret: "TrimSpace ''secret'' = ''secret''"
  by (simp add: TrimSpace_def trim_left.simps leading_space_def space_codes_def wide_spaces_def)

text \<open>
  A component with a second marker after the first, and a page with a second marker after
  the body.
\<close>

theorem first_marker_span_extracted_witness:
  "ExtractTemplatesAndBody ''<head><preview> projects.Featured </preview><preview>other</preview></head><body>{{ .Title }}</body></html>'' =
     Inr (''.projects.Featured'', ''{{ .Title }}'') \<and>
   ExtractEncryptKey ''<head><encrypt>secret</encrypt></head><body>hi</body><encrypt>later</encrypt>'' = Inr ''secret''"
proof -
  let ?c = "''<head><preview> projects.Featured </preview><preview>other</preview></head><body>{{ .Title }}</body></html>''"
  let ?p = "''<head><encrypt>secret</encrypt></head><body>hi</body><encrypt>later</encrypt>''"
  have a: "?c = ''<head>'' @ ''<preview>'' @ '' projects.Featured '' @ ''</preview>'' @
        ''<preview>other</preview></head>'' @ ''<body>'' @ ''{{ .Title }}</body></html>'' \<and>
      Index ?c ''<preview>'' = int (length ''<head>'') \<and>
      Index (''<preview>'' @ '' projects.Featured '' @ ''</preview>'' @ ''<preview>other</preview></head>'' @
        ''<body>'' @ ''{{ .Title }}</body></html>'') ''</preview>'' = int (9 + length '' projects.Featured '') \<and>
      Index ?c ''<body>'' =
        int (length ''<head>'' + 9 + length '' projects.Featured '' + 10 + length ''<preview>other</preview></head>'')"
    by simp
  have a2: "''{{ .Title }}</body></html>'' = ''{{ .Title }}'' @ ''</body>'' @ ''</html>'' \<and>
      Index ?c ''</body>'' =
        int (length ''<head>'' + 9 + length '' projects.Featured '' + 10 +
             length ''<preview>other</preview></head>'' + 6 + length ''{{ .Title }}'')"
    by simp
  have b: "?p = ''<head>'' @ ''<encrypt>'' @ ''secret'' @ ''</encrypt>'' @ ''</head>'' @ ''<body>'' @
        ''hi</body><encrypt>later</encrypt>'' \<and>
      Index ?p ''<encrypt>'' = int (length ''<head>'') \<and>
      Index (''<encrypt>'' @ ''secret'' @ ''</encrypt>'' @ ''</head>'' @ ''<body>'' @
        ''hi</body><encrypt>later</encrypt>'') ''</encrypt>'' = int (9 + length ''secret'') \<and>
      Index ?p ''<body>'' = int (length ''<head>'' + 9 + length ''secret'' + 10 + length ''</head>'')"
    by simp
  note t = first_marker_span_extracted
    [of ?c "''<head>''" "'' projects.Featured ''" "''<preview>other</preview></head>''" "''{{ .Title }}</body></html>''"
        ?p "''<head>''" "''secret''" "''</head>''" "''hi</body><encrypt>later</encrypt>''" "[]"]
  have 1: "ExtractTemplatesAndBody ?c = Inr (dot_prefixed (TrimSpace '' projects.Featured ''), ''{{ .Title }}'')"
    by (rule t [THEN conjunct1, rule_format, OF a, THEN conjunct2, rule_format, OF a2])
  have 2: "ExtractEncryptKey ?p = Inr (TrimSpace ''secret'')"
    by (rule t [THEN conjunct2, THEN conjunct1, rule_format, OF b])
  have 4: "dot_prefixed (TrimSpace '' projects.Featured '') = ''.projects.Featured''"
    by (simp add: TrimSpace_example dot_prefixed_def)
  show ?thesis using 1 2 4 by (simp add: TrimSpace_secret)
qed

text \<open>
  Against claim C7 as stated: a blank marker yields the empty path, with no dot put
  before it.
\<close>

theorem blank_marker_gives_empty_path:
  "ExtractTemplatesAndBody ''<head><preview> </preview></head><body>y</body></html>'' = Inr ([], ''y'')"
proof -
  have t: "TrimSpace '' '' = []"
    by (simp add: TrimSpace_def trim_left.simps leading_space_def space_codes_def wide_spaces_def)
  have "preview_dataPath ''<head><preview> </preview></head><body>y</body></html>'' = Inr []"
    by (simp add: preview_dataPath_def slice_from_def slice_expr_def t)
  then show ?thesis
    by (simp add: ExtractTemplatesAndBody_def slice_expr_def)
qed

text \<open>
  The search for the markers runs over the whole file, not over the head: a marker that
  stands in the body only is taken as well.
\<close>

lemma marker_in_body_extracted:
  "ExtractTemplatesAndBody ''<head></head><body><preview>x</preview></body></html>'' =
     Inr (''.x'', ''<preview>x</preview>'')"
proof -
  have t: "TrimSpace ''x'' = ''x''"
    by (simp add: TrimSpace_def trim_left.simps leading_space_def space_codes_def wide_spaces_def)
  have "preview_dataPath ''<head></head><body><preview>x</preview></body></html>'' = Inr ''.x''"
    by (simp add: preview_dataPath_def slice_from_def slice_expr_def t)
  then show ?thesis
    by (simp add: ExtractTemplatesAndBody_def slice_expr_def)
qed

subsection \<open>Data-path lookup\<close>

lemma Get_loop_Inr:
  "[] \<notin> set parts \<Longrightarrow> Get_loop path parts cur = Inr v \<longleftrightarrow> addressed cur parts = Some v"
proof (induction parts arbitrary: cur)
  case Nil
  then show ?case by auto
next
  case (Cons p ps)
  then show ?case by (cases cur) (auto split: option.splits)
qed

lemma Get_loop_Inl:
  "[] \<notin> set parts \<Longrightarrow>
   Get_loop path parts cur = Inl e \<longleftrightarrow>
     (\<exists>pre seg post node. parts = pre @ seg # post \<and> addressed cur pre = Some node \<and>
        child node seg = None \<and> e = DataPathError path seg)"
proof (induction parts arbitrary: cur)
  case Nil
  then show ?case by simp
next
  case (Cons p ps)
  have ne: "p \<noteq> []" "[] \<notin> set ps" using Cons.prems by auto
  show ?case
  proof (cases "child cur p")
    case None
    then have "Get_loop path (p # ps) cur = Inl (DataPathError path p)"
      using ne by (cases cur) (auto split: option.splits)
    moreover have "(\<exists>pre seg post node. p # ps = pre @ seg # post \<and> addressed cur pre = Some node \<and>
        child node seg = None \<and> e = DataPathError path seg) \<longleftrightarrow> e = DataPathError path p"
    proof
      assume "\<exists>pre seg post node. p # ps = pre @ seg # post \<and> addressed cur pre = Some node \<and>
        child node seg = None \<and> e = DataPathError path seg"
      then obtain pre seg post node where h: "p # ps = pre @ seg # post" "addressed cur pre = Some node"
        "child node seg = None" "e = DataPathError path seg" by blast
      show "e = DataPathError path p"
      proof (cases pre)
        case Nil
        then show ?thesis using h by simp
      next
        case (Cons a as)
        then show ?thesis using h None by simp
      qed
    next
      assume "e = DataPathError path p"
      then have "p # ps = [] @ p # ps \<and> addressed cur [] = Some cur \<and> child cur p = None \<and> e = DataPathError path p"
        using None by simp
      then show "\<exists>pre seg post node. p # ps = pre @ seg # post \<and> addressed cur pre = Some node \<and>
        child node seg = None \<and> e = DataPathError path seg" by blast
    qed
    ultimately show ?thesis by auto
  next
    case (Some v)
    then have step: "Get_loop path (p # ps) cur = Get_loop path ps v"
      using ne by (cases cur) (auto split: option.splits)
    have "(\<exists>pre seg post node. p # ps = pre @ seg # post \<and> addressed cur pre = Some node \<and>
        child node seg = None \<and> e = DataPathError path seg) \<longleftrightarrow>
        (\<exists>pre seg post node. ps = pre @ seg # post \<and> addressed v pre = Some node \<and>
        child node seg = None \<and> e = DataPathError path seg)" (is "?L \<longleftrightarrow> ?R")
    proof
      assume ?L
      then obtain pre seg post node where h: "p # ps = pre @ seg # post" "addressed cur pre = Some node"
        "child node seg = None" "e = DataPathError path seg" by blast
      show ?R
      proof (cases pre)
        case Nil
        then show ?thesis using h Some by simp
      next
        case (Cons a as)
        then have "ps = as @ seg # post \<and> addressed v as = Some node" using h Some by simp
        then show ?thesis using h by blast
      qed
    next
      assume ?R
      then obtain pre seg post node where h: "ps = pre @ seg # post" "addressed v pre = Some node"
        "child node seg = None" "e = DataPathError path seg" by blast
      then have "p # ps = (p # pre) @ seg # post \<and> addressed cur (p # pre) = Some node"
        using Some by simp
      then show ?L using h by blast
    qed
    then show ?thesis using step Cons.IH [OF ne(2)] by simp
  qed
qed

lemma segments_nonempty: "[] \<notin> set (segments path)"
  by (simp add: segments_def)

text \<open>
  Claim C8. For every data tree and dot-path, \<open>Get\<close> walks mapping nodes only and returns
  the value addressed by the segments of the path, in order, where the segments are those
  of the path as the \<open>range\<close> loop reads it: rune by rune, every byte outside a
  well-formed UTF-8 sequence counting as U+FFFD. It returns a \<open>DataPathError\<close> exactly
  when some segment cannot be resolved at the node reached so far (that node is not a
  mapping, or lacks the key); the error then carries the attempted path as it was given and
  that segment. The context is returned as it was. A path that is well-formed UTF-8 is read
  as it stands, so that its segments are the byte runs between its dots.
\<close>

theorem Get_resolves_rune_path:
  "snd (Get ctx path) = ctx \<and>
   (fst (Get ctx path) = Inr v \<longleftrightarrow>
      addressed (Mapping (data ctx)) (segments (rune_text path)) = Some v) \<and>
   (fst (Get ctx path) = Inl e \<longleftrightarrow>
      (\<exists>pre seg post node. segments (rune_text path) = pre @ seg # post \<and>
         addressed (Mapping (data ctx)) pre = Some node \<and> child node seg = None \<and>
         e = DataPathError path seg)) \<and>
   (well_formed path \<longrightarrow> rune_text path = path)"
proof -
  have g: "fst (Get ctx path) = Get_loop path (segments (rune_text path)) (Mapping (data ctx))"
  proof (cases "path = [] \<or> path = ''.''")
    case True
    then have "well_formed path" by auto
    then have "rune_text path = path" by (rule rune_text_well_formed)
    then have "segments (rune_text path) = []" using True by (auto simp: segments_def)
    then show ?thesis using True by (simp add: Get_def)
  next
    case False
    then show ?thesis by (simp add: Get_def splitPath_segments)
  qed
  have "snd (Get ctx path) = ctx" by (simp add: Get_def)
  then show ?thesis
    using g Get_loop_Inr [OF segments_nonempty] Get_loop_Inl [OF segments_nonempty]
      rune_text_well_formed [of path]
    by simp
qed

text \<open>
  The scenario of the specification: \<open>projects.Featured.Title\<close> resolves to \<open>Acme\<close>, and a
  path through a missing key fails at that key.
\<close>

theorem Get_resolves_rune_path_witness:
  "fst (Get projects_ctx ''.projects.Featured.Title'') = Inr (Scalar ''Acme'') \<and>
   fst (Get projects_ctx ''.projects.Title.x'') = Inl (DataPathError ''.projects.Title.x'' ''Title'') \<and>
   snd (Get projects_ctx ''.projects.Title.x'') = projects_ctx \<and>
   rune_text ''.projects.Title.x'' = ''.projects.Title.x''"
proof -
  note t1 = Get_resolves_rune_path [of projects_ctx "''.projects.Featured.Title''" "Scalar ''Acme''"]
  note t2 = Get_resolves_rune_path [of projects_ctx "''.projects.Title.x''" _ "DataPathError ''.projects.Title.x'' ''Title''"]
  have w1: "well_formed ''.projects.Featured.Title''" by simp
  have w2: "well_formed ''.projects.Title.x''" by simp
  have r1: "rune_text ''.projects.Featured.Title'' = ''.projects.Featured.Title''"
    by (rule t1 [THEN conjunct2, THEN conjunct2, THEN conjunct2, rule_format, OF w1])
  have r2: "rune_text ''.projects.Title.x'' = ''.projects.Title.x''"
    by (rule t2 [THEN conjunct2, THEN conjunct2, THEN conjunct2, rule_format, OF w2])
  have a: "addressed (Mapping (data projects_ctx)) (segments (rune_text ''.projects.Featured.Title'')) =
      Some (Scalar ''Acme'')"
    unfolding r1 by (simp add: segments_def projects_ctx_def)
  have s: "segments (rune_text ''.projects.Title.x'') = [''projects''] @ ''Title'' # [''x'']"
    unfolding r2 by (simp add: segments_def)
  have n: "addressed (Mapping (data projects_ctx)) [''projects''] =
      Some (Mapping [''Featured'' \<mapsto> Mapping [''Title'' \<mapsto> Scalar ''Acme'']])"
    by (simp add: projects_ctx_def)
  have c: "child (Mapping [''Featured'' \<mapsto> Mapping [''Title'' \<mapsto> Scalar ''Acme'']]) ''Title'' = None"
    by simp
  have b: "\<exists>pre seg post node. segments (rune_text ''.projects.Title.x'') = pre @ seg # post \<and>
         addressed (Mapping (data projects_ctx)) pre = Some node \<and> child node seg = None \<and>
         DataPathError ''.projects.Title.x'' ''Title'' = DataPathError ''.projects.Title.x'' seg"
    using s n c by blast
  have 1: "fst (Get projects_ctx ''.projects.Featured.Title'') = Inr (Scalar ''Acme'')"
    by (rule t1 [THEN conjunct2, THEN conjunct1, THEN iffD2, OF a])
  have 2: "fst (Get projects_ctx ''.projects.Title.x'') = Inl (DataPathError ''.projects.Title.x'' ''Title'')"
    by (rule t2 [THEN conjunct2, THEN conjunct2, THEN conjunct1, THEN iffD2, OF b])
  have 3: "snd (Get projects_ctx ''.projects.Title.x'') = projects_ctx"
    by (rule t2 [THEN conjunct1])
  from 1 2 3 r2 show ?thesis by (intro conjI)
qed

text \<open>
  A path with a byte that is not UTF-8 (\<open>caf\<close> followed by the Latin-1 byte E9): every
  byte run between the dots of the path is a key of the tree, and still the lookup fails,
  and the segment in the error is not a piece of the attempted path.
\<close>

theorem invalid_byte_read_as_replacement:
  "fst (Get latin1_ctx (''.projects.caf'' @ [CHR 0xE9])) =
     Inl (DataPathError (''.projects.caf'' @ [CHR 0xE9]) (''caf'' @ [CHR 0xEF, CHR 0xBF, CHR 0xBD])) \<and>
   segments (''.projects.caf'' @ [CHR 0xE9]) = [''projects'', ''caf'' @ [CHR 0xE9]] \<and>
   addressed (Mapping (data latin1_ctx)) (segments (''.projects.caf'' @ [CHR 0xE9])) =
     Some (Scalar ''espresso'')"
proof -
  have s: "splitPath (''.projects.caf'' @ [CHR 0xE9]) =
      [''projects'', ''caf'' @ [CHR 0xEF, CHR 0xBF, CHR 0xBD]]"
    unfolding splitPath_segments rune_text_invalid by (simp add: segments_def)
  have 1: "fst (Get latin1_ctx (''.projects.caf'' @ [CHR 0xE9])) =
     Inl (DataPathError (''.projects.caf'' @ [CHR 0xE9]) (''caf'' @ [CHR 0xEF, CHR 0xBF, CHR 0xBD]))"
    unfolding Get_def s by (simp add: latin1_ctx_def)
  have 2: "segments (''.projects.caf'' @ [CHR 0xE9]) = [''projects'', ''caf'' @ [CHR 0xE9]]"
    by (simp add: segments_def)
  have 3: "addressed (Mapping (data latin1_ctx)) (segments (''.projects.caf'' @ [CHR 0xE9])) =
     Some (Scalar ''espresso'')"
    unfolding 2 by (simp add: latin1_ctx_def)
  from 1 2 3 show ?thesis by (intro conjI)
qed

subsection \<open>Passes and orphans\<close>









end
